theory Spec2Isabelle
  imports Main
begin

section \<open>JavaScript strings and the regular expressions of update-db.mjs\<close>

text \<open>
  A JavaScript string is a sequence of UTF-16 code units. A code unit is modelled as a
  natural number (every real code unit is below 65536); string literals of the source are
  written with \<open>js\<close>, which maps each ASCII character to its code.
\<close>

type_synonym code_unit = nat
type_synonym jsstring = "code_unit list"

definition js :: "string \<Rightarrow> jsstring" where
  "js s = map of_char s"

text \<open>
  The regular expression atom \<open>.\<close> (no \<open>s\<close> flag) matches every code unit except the
  four line terminators LF, CR, U+2028 and U+2029; \<open>[a-zA-Z]\<close> matches the ASCII letters.
\<close>

definition is_line_terminator :: "code_unit \<Rightarrow> bool" where
  "is_line_terminator c = (c = 10 \<or> c = 13 \<or> c = 8232 \<or> c = 8233)"

definition rx_dot :: "code_unit \<Rightarrow> bool" where
  "rx_dot c = (\<not> is_line_terminator c)"

definition rx_alpha :: "code_unit \<Rightarrow> bool" where
  "rx_alpha c = ((97 \<le> c \<and> c \<le> 122) \<or> (65 \<le> c \<and> c \<le> 90))"

definition is_digit :: "code_unit \<Rightarrow> bool" where
  "is_digit c = (48 \<le> c \<and> c \<le> 57)"

text \<open>Matching a literal at the head of the input; the result is the input after it.\<close>

fun strip_prefix :: "'a list \<Rightarrow> 'a list \<Rightarrow> 'a list option" where
  "strip_prefix [] s = Some s"
| "strip_prefix (p # ps) [] = None"
| "strip_prefix (p # ps) (c # cs) = (if p = c then strip_prefix ps cs else None)"

text \<open>
  A lazy quantifier \<open>X*?\<close> followed by the rest \<open>k\<close> of the pattern: the backtracking
  matcher tries the rest first and consumes one more code unit of class \<open>X\<close> only when the
  rest fails. The result is the text consumed together with the result of the rest.
\<close>

fun lazy_star ::
  "(code_unit \<Rightarrow> bool) \<Rightarrow> (jsstring \<Rightarrow> 'a option) \<Rightarrow> jsstring \<Rightarrow> (jsstring \<times> 'a) option" where
  "lazy_star ok k [] = (case k [] of Some r \<Rightarrow> Some ([], r) | None \<Rightarrow> None)"
| "lazy_star ok k (c # cs) =
     (case k (c # cs) of
        Some r \<Rightarrow> Some ([], r)
      | None \<Rightarrow>
          if ok c
          then (case lazy_star ok k cs of None \<Rightarrow> None | Some (g, r) \<Rightarrow> Some (c # g, r))
          else None)"

text \<open>
  An unanchored, non-global search tries the start positions from left to right and stops
  at the first one where the pattern matches. The result is the text before the match and
  the result of the match.
\<close>

fun regex_search :: "(jsstring \<Rightarrow> 'a option) \<Rightarrow> jsstring \<Rightarrow> (jsstring \<times> 'a) option" where
  "regex_search m [] = (case m [] of Some r \<Rightarrow> Some ([], r) | None \<Rightarrow> None)"
| "regex_search m (c # cs) =
     (case m (c # cs) of
        Some r \<Rightarrow> Some ([], r)
      | None \<Rightarrow> (case regex_search m cs of None \<Rightarrow> None | Some (pre, r) \<Rightarrow> Some (c # pre, r)))"

text \<open>
  The replacement text of \<open>String.prototype.replace\<close> is not inserted as it is: the
  patterns \<open>$$\<close>, \<open>$&\<close>, \<open>$`\<close>, \<open>$'\<close>, \<open>$n\<close> and \<open>$nn\<close> are expanded (ECMAScript
  GetSubstitution; there are no named groups here). A reference to a group that does not
  exist stays as it is written.
\<close>

fun get_substitution ::
  "jsstring \<Rightarrow> jsstring \<Rightarrow> jsstring \<Rightarrow> jsstring list \<Rightarrow> jsstring \<Rightarrow> jsstring" where
  "get_substitution matched pre post caps [] = []"
| "get_substitution matched pre post caps [c] = [c]"
| "get_substitution matched pre post caps (c # d # r) =
     (if c \<noteq> 36 then c # get_substitution matched pre post caps (d # r)
      else if d = 36 then 36 # get_substitution matched pre post caps r
      else if d = 38 then matched @ get_substitution matched pre post caps r
      else if d = 96 then pre @ get_substitution matched pre post caps r
      else if d = 39 then post @ get_substitution matched pre post caps r
      else if is_digit d \<and> r \<noteq> [] \<and> is_digit (hd r)
              \<and> 1 \<le> 10 * (d - 48) + (hd r - 48) \<and> 10 * (d - 48) + (hd r - 48) \<le> length caps
      then caps ! (10 * (d - 48) + (hd r - 48) - 1)
             @ get_substitution matched pre post caps (tl r)
      else if is_digit d \<and> 1 \<le> d - 48 \<and> d - 48 \<le> length caps
      then caps ! (d - 48 - 1) @ get_substitution matched pre post caps r
      else c # get_substitution matched pre post caps (d # r))"

subsection \<open>injectDefaults\<close>

definition DEFAULT_COLUMNS_PLACEHOLDER :: jsstring where
  "DEFAULT_COLUMNS_PLACEHOLDER = js ''%DEFAULT_COLUMNS%''"

definition DEFAULT_COLUMNS_TEXT :: jsstring where
  "DEFAULT_COLUMNS_TEXT = js (
     ''-- default columns:\<newline>'' @
     ''    ADD COLUMN IF NOT EXISTS created_at TIMESTAMP WITH TIME ZONE NOT NULL DEFAULT CURRENT_TIMESTAMP\<newline>'' @
     ''  , ADD COLUMN IF NOT EXISTS created_by UUID NOT NULL DEFAULT COALESCE(auth.uid(), uuid('00000000-0000-0000-0000-000000000000'))\<newline>'' @
     ''  , ADD COLUMN IF NOT EXISTS updated_at TIMESTAMP WITH TIME ZONE NOT NULL DEFAULT CURRENT_TIMESTAMP\<newline>'' @
     ''  , ADD COLUMN IF NOT EXISTS updated_by UUID NOT NULL DEFAULT COALESCE(auth.uid(), uuid('00000000-0000-0000-0000-000000000000'))\<newline>'' @
     ''  , ADD COLUMN IF NOT EXISTS deleted_at TIMESTAMP WITH TIME ZONE\<newline>'' @
     ''  , ADD COLUMN IF NOT EXISTS deleted_by UUID\<newline>'' @
     ''  , ADD COLUMN IF NOT EXISTS deleted_reason TEXT\<newline>'')"

definition DEFAULT_TRIGGER_TEXT :: jsstring where
  "DEFAULT_TRIGGER_TEXT = js (
     ''-- default trigger\<newline>'' @
     ''DROP TRIGGER IF EXISTS tr_$1_$2_update ON $1.$2;\<newline>'' @
     ''DROP FUNCTION IF EXISTS $1.func_tr_$1_$2_update;\<newline>'' @
     ''CREATE FUNCTION public.func_tr_$1_$2_update() RETURNS TRIGGER\<newline>'' @
     ''    LANGUAGE PLPGSQL\<newline>'' @
     ''    AS\<newline>'' @
     ''$func$\<newline>'' @
     ''\<newline>'' @
     ''BEGIN\<newline>'' @
     ''    NEW.updated_at := now();\<newline>'' @
     ''    NEW.updated_by := COALESCE(auth.uid(), uuid('00000000-0000-0000-0000-000000000000'));\<newline>'' @
     ''    RETURN NEW;\<newline>'' @
     ''END;\<newline>'' @
     ''$func$;\<newline>'' @
     ''\<newline>'' @
     ''CREATE TRIGGER tr_$1_$2_update\<newline>'' @
     ''    BEFORE UPDATE\<newline>'' @
     ''    ON $1.$2\<newline>'' @
     ''    FOR EACH ROW\<newline>'' @
     ''    EXECUTE FUNCTION $1.func_tr_$1_$2_update();\<newline>'')"

text \<open>
  \<open>query.replace('%DEFAULT_COLUMNS%', ...)\<close>: a string pattern replaces its first
  occurrence only, and the text is unchanged when there is none.
\<close>

definition replace_string :: "jsstring \<Rightarrow> jsstring \<Rightarrow> jsstring \<Rightarrow> jsstring" where
  "replace_string pat repl s =
     (case regex_search (strip_prefix pat) s of
        None \<Rightarrow> s
      | Some (pre, post) \<Rightarrow> pre @ get_substitution pat pre post [] repl @ post)"

definition inject_columns :: "jsstring \<Rightarrow> jsstring" where
  "inject_columns query = replace_string DEFAULT_COLUMNS_PLACEHOLDER DEFAULT_COLUMNS_TEXT query"

text \<open>
  The pattern \<open>/%DEFAULT_TRIGGER\((.*?)\.(.*?)\)%/\<close> at one start position: the two
  groups and the input after the match.
\<close>

definition rxDefaultTrigger :: "jsstring \<Rightarrow> (jsstring \<times> jsstring \<times> jsstring) option" where
  "rxDefaultTrigger s =
     (case strip_prefix (js ''%DEFAULT_TRIGGER('') s of
        None \<Rightarrow> None
      | Some s1 \<Rightarrow>
          (case lazy_star rx_dot
                  (\<lambda>s2. case strip_prefix (js ''.'') s2 of
                           None \<Rightarrow> None
                         | Some s3 \<Rightarrow> lazy_star rx_dot (strip_prefix (js '')%'')) s3) s1 of
             None \<Rightarrow> None
           | Some (g1, g2, post) \<Rightarrow> Some (g1, g2, post)))"

definition inject_trigger :: "jsstring \<Rightarrow> jsstring" where
  "inject_trigger query =
     (case regex_search rxDefaultTrigger query of
        None \<Rightarrow> query
      | Some (pre, g1, g2, post) \<Rightarrow>
          pre
          @ get_substitution (js ''%DEFAULT_TRIGGER('' @ g1 @ js ''.'' @ g2 @ js '')%'')
              pre post [g1, g2] DEFAULT_TRIGGER_TEXT
          @ post)"

definition injectDefaults :: "jsstring \<Rightarrow> jsstring" where
  "injectDefaults query = inject_trigger (inject_columns query)"


section \<open>The script directory, the manifest and the consistency checks\<close>

text \<open>
  \<open>db/db-updates.json\<close> after \<open>JSON.parse\<close>: the two arrays of script names. The
  manifest is taken to carry both arrays, with strings as their items.
\<close>

record updateScripts =
  updates :: "jsstring list"
  ignore :: "jsstring list"

text \<open>
  \<open>Array.prototype.find\<close> returns the element found or \<open>undefined\<close>, and the source
  tests that result for truthiness: \<open>undefined\<close> and the empty string are falsy.
\<close>

definition truthy :: "jsstring option \<Rightarrow> bool" where
  "truthy r = (case r of None \<Rightarrow> False | Some s \<Rightarrow> s \<noteq> [])"

text \<open>
  \<open>updateScriptFiles.sort()\<close> orders the names by their code units; an insertion sort
  with that comparison gives the same list.
\<close>

fun js_less :: "jsstring \<Rightarrow> jsstring \<Rightarrow> bool" where
  "js_less [] [] = False"
| "js_less [] (y # ys) = True"
| "js_less (x # xs) [] = False"
| "js_less (x # xs) (y # ys) = (x < y \<or> (x = y \<and> js_less xs ys))"

fun js_insort :: "jsstring \<Rightarrow> jsstring list \<Rightarrow> jsstring list" where
  "js_insort f [] = [f]"
| "js_insort f (g # gs) = (if js_less g f then g # js_insort f gs else f # g # gs)"

definition js_sort :: "jsstring list \<Rightarrow> jsstring list" where
  "js_sort fs = foldr js_insort fs []"

definition warnNotReferencedScripts :: "updateScripts \<Rightarrow> jsstring list \<Rightarrow> jsstring list" where
  "warnNotReferencedScripts us updateScriptFiles =
     filter (\<lambda>updateScriptFile.
               \<not> truthy (find (\<lambda>item. item = updateScriptFile) (updates us))
             \<and> \<not> truthy (find (\<lambda>item. item = updateScriptFile) (ignore us)))
       updateScriptFiles"

text \<open>
  \<open>/(^[a-zA-Z]*?\..*?) TABLE/\<close>: the anchor lets the pattern match at the start of the
  name only. The result is the first group.
\<close>

definition rxTableName :: "jsstring \<Rightarrow> jsstring option" where
  "rxTableName s =
     (case lazy_star rx_alpha
             (\<lambda>s1. case strip_prefix (js ''.'') s1 of
                      None \<Rightarrow> None
                    | Some s2 \<Rightarrow> lazy_star rx_dot (strip_prefix (js '' TABLE'')) s2) s of
        None \<Rightarrow> None
      | Some (schema, object, post) \<Rightarrow> Some (schema @ js ''.'' @ object))"

text \<open>\<open>/(.*?) RLS/\<close>, searched from the left; the result is the first group.\<close>

definition rxRLSName :: "jsstring \<Rightarrow> jsstring option" where
  "rxRLSName s =
     (case regex_search (lazy_star rx_dot (strip_prefix (js '' RLS''))) s of
        None \<Rightarrow> None
      | Some (pre, g, post) \<Rightarrow> Some g)"

definition warnTablesWithoutRLS :: "jsstring list \<Rightarrow> jsstring list" where
  "warnTablesWithoutRLS updateScriptFiles =
     filter (\<lambda>updateScriptFile.
               rxTableName updateScriptFile \<noteq> None
             \<and> \<not> truthy (find (\<lambda>updateScriptFile2.
                                 rxRLSName updateScriptFile2 \<noteq> None
                               \<and> rxTableName updateScriptFile = rxRLSName updateScriptFile2)
                           updateScriptFiles))
       updateScriptFiles"

section \<open>The database behind the connection\<close>

text \<open>
  A row of \<open>public.db_updates\<close> with the two columns the tool reads and writes (the
  identity and audit columns are left out). The table may not exist yet. Everything else
  in the database is the abstract state \<open>'o\<close> on which the script bodies act.
\<close>

record db_update =
  name :: jsstring
  sha256 :: jsstring

record 'o database =
  objects :: 'o
  db_updates :: "db_update list option"

datatype pg_call =
    Connect
  | ManageDbUpdates
  | SelectDbUpdates
  | Begin
  | Script jsstring
  | UpdateRow jsstring jsstring
  | InsertRow jsstring jsstring
  | Rollback
  | Commit

datatype error = FileNotFound jsstring | QueryError jsstring

text \<open>
  What the script hands to its output functions: \<open>Failed\<close> is the report of either
  \<open>catch\<close>, \<open>Skipping\<close> and \<open>Applied\<close> are the lines of the loop, \<open>NotReferenced\<close>
  and \<open>NoRLSFound\<close> the two warnings, and \<open>UpdatesApplied\<close> the summary after
  \<open>COMMIT\<close>.
\<close>

datatype message =
    EnvVarNotSet jsstring
  | LocationDoesNotExist
  | Uncaught
  | ConnectFailed
  | Skipping jsstring
  | Applied jsstring
  | Failed error
  | NotReferenced jsstring
  | NoRLSFound jsstring
  | NotCommitted
  | UpdatesApplied nat


text \<open>
  The state of one run: the database as the connection sees it, the database as it was
  at \<open>BEGIN\<close> while a transaction is open, the calls made to the driver, the lines
  printed and the counter of the loop.
\<close>

record 'o run_state =
  db :: "'o database"
  tx_start :: "'o database option"
  calls :: "pg_call list"
  console :: "message list"
  updateCounter :: nat

text \<open>
  What the run is given: the command line, the environment variables, the file system
  (the listing of \<open>db/db-updates\<close>, absent when the directory is, the parsed manifest,
  absent when it cannot be read or parsed, and the content of each script that exists),
  the digest \<open>sha256\<close> in hexadecimal, and the driver: whether connecting succeeds,
  whether PostgreSQL accepts the query of \<open>manage_db_updates_table\<close>, the \<open>SELECT\<close> of
  \<open>query_db_updates\<close> and \<open>BEGIN\<close>, and
  what a script body does to the database (\<open>None\<close> when PostgreSQL rejects it). A script
  body is taken to act on the objects outside \<open>public.db_updates\<close> and to hold no
  transaction control of its own. A script for which \<open>readFileSync\<close> gives \<open>None\<close> is
  one for which \<open>existsSync\<close> is false. The \<open>SELECT\<close> on \<open>public.db_updates\<close> has no
  \<open>ORDER BY\<close>; its rows are taken in the order of the list.
\<close>

record 'o environment =
  doCommit :: bool
  PGHOST :: "jsstring option"
  PGPORT :: "jsstring option"
  PGDATABASE :: "jsstring option"
  PGUSER :: "jsstring option"
  PGPASSWORD :: "jsstring option"
  readdirSync :: "jsstring list option"
  manifest_json :: "updateScripts option"
  readFileSync :: "jsstring \<Rightarrow> jsstring option"
  sha256_hex :: "jsstring \<Rightarrow> jsstring"
  connect_ok :: bool
  manage_ok :: bool
  select_ok :: bool
  begin_ok :: bool
  run_sql :: "jsstring \<Rightarrow> 'o \<Rightarrow> 'o option"

subsection \<open>Statements\<close>

definition issue :: "pg_call \<Rightarrow> 'o run_state \<Rightarrow> 'o run_state" where
  "issue c st = st\<lparr>calls := calls st @ [c]\<rparr>"

definition say :: "message \<Rightarrow> 'o run_state \<Rightarrow> 'o run_state" where
  "say m st = st\<lparr>console := console st @ [m]\<rparr>"

text \<open>
  \<open>info\<close> is taken out of the \<open>loglevel\<close> object when the module is loaded, while the
  level is still the default \<open>WARN\<close>, at which \<open>loglevel\<close> binds \<open>info\<close> to a function
  that does nothing; \<open>setLevel(2)\<close> later rebinds the methods of the object, not the
  function taken out before. So a call of \<open>info\<close> prints nothing. (\<open>error\<close>, taken out
  the same way, is bound to \<open>console.error\<close> at every level.)
\<close>

definition info :: "message \<Rightarrow> 'o run_state \<Rightarrow> 'o run_state" where
  "info m st = st"

text \<open>
  \<open>manage_db_updates_table\<close>: \<open>CREATE TABLE IF NOT EXISTS\<close> and the statements after
  it create the table when it is absent and keep its rows otherwise. They are sent as one
  query, which PostgreSQL runs as a whole or not at all: a query that is rejected leaves
  no table behind, and raises.
\<close>

definition ledger_rows :: "'o database \<Rightarrow> db_update list" where
  "ledger_rows d = (case db_updates d of None \<Rightarrow> [] | Some rows \<Rightarrow> rows)"

definition manage_db_updates_table ::
  "'o environment \<Rightarrow> 'o run_state \<Rightarrow> (error \<times> 'o run_state) + 'o run_state" where
  "manage_db_updates_table env st =
     (if manage_ok env
      then Inr (issue ManageDbUpdates
                  (st\<lparr>db := (db st)\<lparr>db_updates := Some (ledger_rows (db st))\<rparr>\<rparr>))
      else Inl (QueryError (js ''CREATE TABLE IF NOT EXISTS public.db_updates''),
                issue ManageDbUpdates st))"

text \<open>\<open>query_db_updates\<close>: the rows of the table, or an exception.\<close>

definition query_db_updates ::
  "'o environment \<Rightarrow> 'o run_state
     \<Rightarrow> (error \<times> 'o run_state) + (db_update list \<times> 'o run_state)" where
  "query_db_updates env st =
     (case db_updates (db st) of
        None \<Rightarrow> Inl (QueryError (js ''SELECT''), issue SelectDbUpdates st)
      | Some rows \<Rightarrow>
          if select_ok env
          then Inr (rows, issue SelectDbUpdates st)
          else Inl (QueryError (js ''SELECT''), issue SelectDbUpdates st))"

definition pg_begin ::
  "'o environment \<Rightarrow> 'o run_state \<Rightarrow> (error \<times> 'o run_state) + 'o run_state" where
  "pg_begin env st =
     (if begin_ok env
      then Inr (issue Begin (st\<lparr>tx_start := Some (db st)\<rparr>))
      else Inl (QueryError (js ''BEGIN''), issue Begin st))"

definition pg_rollback :: "'o run_state \<Rightarrow> 'o run_state" where
  "pg_rollback st =
     issue Rollback
       (case tx_start st of None \<Rightarrow> st | Some d \<Rightarrow> st\<lparr>db := d, tx_start := None\<rparr>)"

definition pg_commit :: "'o run_state \<Rightarrow> 'o run_state" where
  "pg_commit st = issue Commit (st\<lparr>tx_start := None\<rparr>)"

text \<open>A statement that fails has been sent all the same, and raises.\<close>

definition pg_script ::
  "'o environment \<Rightarrow> jsstring \<Rightarrow> 'o run_state \<Rightarrow> (error \<times> 'o run_state) + 'o run_state" where
  "pg_script env q st =
     (case run_sql env q (objects (db st)) of
        None \<Rightarrow> Inl (QueryError q, issue (Script q) st)
      | Some obs \<Rightarrow> Inr (issue (Script q) (st\<lparr>db := (db st)\<lparr>objects := obs\<rparr>\<rparr>)))"

text \<open>\<open>UPDATE public.db_updates SET sha256 = $1 ... WHERE name = $2\<close>\<close>

definition pg_update ::
  "jsstring \<Rightarrow> jsstring \<Rightarrow> 'o run_state \<Rightarrow> (error \<times> 'o run_state) + 'o run_state" where
  "pg_update sha n st =
     (case db_updates (db st) of
        None \<Rightarrow> Inl (QueryError (js ''UPDATE public.db_updates''), issue (UpdateRow sha n) st)
      | Some rows \<Rightarrow>
          Inr (issue (UpdateRow sha n)
            (st\<lparr>db := (db st)\<lparr>db_updates :=
               Some (map (\<lambda>r. if name r = n then r\<lparr>sha256 := sha\<rparr> else r) rows)\<rparr>\<rparr>)))"

text \<open>\<open>INSERT INTO public.db_updates (name, sha256, ...) VALUES ($1, $2, ...)\<close>\<close>

definition pg_insert ::
  "jsstring \<Rightarrow> jsstring \<Rightarrow> 'o run_state \<Rightarrow> (error \<times> 'o run_state) + 'o run_state" where
  "pg_insert n sha st =
     (case db_updates (db st) of
        None \<Rightarrow> Inl (QueryError (js ''INSERT INTO public.db_updates''), issue (InsertRow n sha) st)
      | Some rows \<Rightarrow>
          Inr (issue (InsertRow n sha)
            (st\<lparr>db := (db st)\<lparr>db_updates := Some (rows @ [\<lparr>name = n, sha256 = sha\<rparr>])\<rparr>\<rparr>)))"


section \<open>The run\<close>

text \<open>
  One pass of the loop over \<open>updateScripts.updates\<close>. The digest is taken from the text
  as it was read; \<open>injectDefaults\<close> is applied after that, and its result is what is
  sent to the database. \<open>alreadyApplied\<close> is the result of \<open>query_db_updates\<close>, fetched
  before the loop.
\<close>

definition apply_update ::
  "'o environment \<Rightarrow> db_update list \<Rightarrow> jsstring \<Rightarrow> 'o run_state
     \<Rightarrow> (error \<times> 'o run_state) + 'o run_state" where
  "apply_update env alreadyApplied updateScript st =
     (case readFileSync env updateScript of
        None \<Rightarrow> Inl (FileNotFound updateScript, st)
      | Some script \<Rightarrow>
          (let sha = sha256_hex env script;
               script' = injectDefaults script;
               alreadyAppliedScript = find (\<lambda>dbu. name dbu = updateScript) alreadyApplied
           in if (case alreadyAppliedScript of None \<Rightarrow> False | Some dbu \<Rightarrow> sha256 dbu = sha)
              then Inr (say (Skipping updateScript) st)
              else
                (case pg_script env script' (st\<lparr>updateCounter := updateCounter st + 1\<rparr>) of
                   Inl e \<Rightarrow> Inl e
                 | Inr st1 \<Rightarrow>
                     (case alreadyAppliedScript of
                        Some dbu \<Rightarrow>
                          (case pg_update sha updateScript st1 of
                             Inl e \<Rightarrow> Inl e
                           | Inr st2 \<Rightarrow> Inr (say (Applied updateScript) st2))
                      | None \<Rightarrow>
                          (case pg_insert updateScript sha st1 of
                             Inl e \<Rightarrow> Inl e
                           | Inr st2 \<Rightarrow> Inr (say (Applied updateScript) st2))))))"

fun apply_updates ::
  "'o environment \<Rightarrow> db_update list \<Rightarrow> jsstring list \<Rightarrow> 'o run_state
     \<Rightarrow> (error \<times> 'o run_state) + 'o run_state" where
  "apply_updates env alreadyApplied [] st = Inr st"
| "apply_updates env alreadyApplied (updateScript # rest) st =
     (case apply_update env alreadyApplied updateScript st of
        Inl e \<Rightarrow> Inl e
      | Inr st' \<Rightarrow> apply_updates env alreadyApplied rest st')"

definition printWarnings :: "updateScripts \<Rightarrow> jsstring list \<Rightarrow> 'o run_state \<Rightarrow> 'o run_state" where
  "printWarnings us updateScriptFiles st =
     st\<lparr>console := console st
          @ map NotReferenced (warnNotReferencedScripts us updateScriptFiles)
          @ map NoRLSFound (warnTablesWithoutRLS updateScriptFiles)\<rparr>"

text \<open>The process as it ends: its exit status and the state it leaves.\<close>

record 'o process =
  exit_code :: nat
  final :: "'o run_state"

definition exit_with :: "nat \<Rightarrow> 'o run_state \<Rightarrow> 'o process" where
  "exit_with n st = \<lparr>exit_code = n, final = st\<rparr>"

text \<open>\<open>checkEnvVarAndQuitIfFalsy\<close>, called for the five variables in turn.\<close>

definition falsy :: "jsstring option \<Rightarrow> bool" where
  "falsy v = (v = None \<or> v = Some [])"

definition checkEnvVars :: "'o environment \<Rightarrow> jsstring option" where
  "checkEnvVars env =
     (if falsy (PGHOST env) then Some (js ''PGHOST'')
      else if falsy (PGPORT env) then Some (js ''PGPORT'')
      else if falsy (PGDATABASE env) then Some (js ''PGDATABASE'')
      else if falsy (PGUSER env) then Some (js ''PGUSER'')
      else if falsy (PGPASSWORD env) then Some (js ''PGPASSWORD'')
      else None)"

text \<open>
  The asynchronous body of the script, after the connection is open: the table is
  managed and read outside any transaction, the loop runs inside one, and the
  transaction is rolled back on an error or in a dry run and committed otherwise.
  An exception of \<open>manage_db_updates_table\<close> or \<open>query_db_updates\<close> is caught by the
  outer \<open>catch\<close>, which reports it and exits with status 1 without sending anything;
  \<open>BEGIN\<close> and the loop stand in the inner \<open>try\<close>, whose \<open>catch\<close> reports the
  exception, sends \<open>ROLLBACK\<close> and exits with status 1. The summary after \<open>COMMIT\<close>
  is handed to \<open>info\<close>.
\<close>

definition session ::
  "'o environment \<Rightarrow> updateScripts \<Rightarrow> jsstring list \<Rightarrow> 'o run_state \<Rightarrow> 'o process" where
  "session env us updateScriptFiles st =
     (case manage_db_updates_table env st of
        Inl (err, st2) \<Rightarrow> exit_with 1 (say (Failed err) st2)
      | Inr st2 \<Rightarrow>
          (case query_db_updates env st2 of
             Inl (err, st3) \<Rightarrow> exit_with 1 (say (Failed err) st3)
           | Inr (alreadyApplied, st3) \<Rightarrow>
               (case (case pg_begin env st3 of
                        Inl e \<Rightarrow> Inl e
                      | Inr st3' \<Rightarrow> apply_updates env alreadyApplied (updates us) st3') of
                  Inl (err, st4) \<Rightarrow> exit_with 1 (pg_rollback (say (Failed err) st4))
                | Inr st4 \<Rightarrow>
                    if \<not> doCommit env
                    then exit_with 0
                           (say NotCommitted
                              (printWarnings us updateScriptFiles (pg_rollback st4)))
                    else exit_with 0
                           (info (UpdatesApplied (updateCounter st4))
                              (printWarnings us updateScriptFiles (pg_commit st4))))))"

text \<open>
  The module from its first statement. A variable that is not set ends the process with
  status 1. A missing \<open>db/db-updates\<close> is reported and the script goes on; the manifest
  is read next and the directory listed, and either call raises when its file is not
  there: an exception that nothing catches ends the process with status 1.
\<close>

definition initial_state :: "'o database \<Rightarrow> 'o run_state" where
  "initial_state d = \<lparr>db = d, tx_start = None, calls = [], console = [], updateCounter = 0\<rparr>"

definition main :: "'o environment \<Rightarrow> 'o database \<Rightarrow> 'o process" where
  "main env d =
     (let st0 = initial_state d in
      case checkEnvVars env of
        Some key \<Rightarrow> exit_with 1 (say (EnvVarNotSet key) st0)
      | None \<Rightarrow>
          (let st1 = (if readdirSync env = None then say LocationDoesNotExist st0 else st0) in
           case manifest_json env of
             None \<Rightarrow> exit_with 1 (say Uncaught st1)
           | Some us \<Rightarrow>
               (case readdirSync env of
                  None \<Rightarrow> exit_with 1 (say Uncaught st1)
                | Some listing \<Rightarrow>
                    if \<not> connect_ok env
                    then exit_with 1 (say ConnectFailed (issue Connect st1))
                    else session env us (js_sort listing) (issue Connect st1))))"


section \<open>Notions used to state the properties\<close>

text \<open>
  The three-way decision as the specification words it: skip when a record of that name
  holds the same digest, update when it holds another one, insert when there is none.
\<close>

datatype decision = Skip | Update | Insert

definition decide :: "db_update list \<Rightarrow> jsstring \<Rightarrow> jsstring \<Rightarrow> decision" where
  "decide appliedRecords n contentHash =
     (case find (\<lambda>r. name r = n) appliedRecords of
        None \<Rightarrow> Insert
      | Some r \<Rightarrow> if sha256 r = contentHash then Skip else Update)"

text \<open>The statements that a decision sends for the script \<open>n\<close> with text \<open>script\<close>.\<close>

definition entry_calls :: "'o environment \<Rightarrow> db_update list \<Rightarrow> jsstring \<Rightarrow> pg_call list" where
  "entry_calls env appliedRecords n =
     (case readFileSync env n of
        None \<Rightarrow> []
      | Some script \<Rightarrow>
          (case decide appliedRecords n (sha256_hex env script) of
             Skip \<Rightarrow> []
           | Update \<Rightarrow> [Script (injectDefaults script), UpdateRow (sha256_hex env script) n]
           | Insert \<Rightarrow> [Script (injectDefaults script), InsertRow n (sha256_hex env script)]))"

text \<open>
  The state of a run on the database \<open>d\<close> that has connected and whose three statements
  before the loop were accepted, right after \<open>BEGIN\<close>: the table exists with the rows it
  had, and the transaction starts from there.
\<close>

definition state_at_begin :: "'o database \<Rightarrow> 'o run_state" where
  "state_at_begin d =
     \<lparr>db = d\<lparr>db_updates := Some (ledger_rows d)\<rparr>,
      tx_start = Some (d\<lparr>db_updates := Some (ledger_rows d)\<rparr>),
      calls = [Connect, ManageDbUpdates, SelectDbUpdates, Begin],
      console = [], updateCounter = 0\<rparr>"

subsection \<open>A small concrete installation\<close>

text \<open>
  For concrete runs: the database state is the list of script bodies executed so far, the
  body \<open>FAIL\<close> is rejected, the statements before the loop are accepted, and the digest
  is a stand-in that returns its input.
\<close>

definition demo_digest :: "jsstring \<Rightarrow> jsstring" where
  "demo_digest s = s"

definition demo_sql :: "jsstring \<Rightarrow> jsstring list \<Rightarrow> jsstring list option" where
  "demo_sql q obs = (if q = js ''FAIL'' then None else Some (obs @ [q]))"

definition demo_env ::
  "bool \<Rightarrow> jsstring list \<Rightarrow> updateScripts \<Rightarrow> (jsstring \<times> jsstring) list
     \<Rightarrow> (jsstring list) environment" where
  "demo_env commit listing us contents =
     \<lparr>doCommit = commit,
      PGHOST = Some (js ''localhost''), PGPORT = Some (js ''5432''),
      PGDATABASE = Some (js ''postgres''), PGUSER = Some (js ''postgres''),
      PGPASSWORD = Some (js ''secret''),
      readdirSync = Some listing, manifest_json = Some us,
      readFileSync = map_of contents, sha256_hex = demo_digest,
      connect_ok = True, manage_ok = True, select_ok = True, begin_ok = True,
      run_sql = demo_sql\<rparr>"

definition fresh_db :: "(jsstring list) database" where
  "fresh_db = \<lparr>objects = [], db_updates = None\<rparr>"

definition demo_failing :: "bool \<Rightarrow> (jsstring list) environment" where
  "demo_failing commit =
     demo_env commit [js ''a'', js ''b''] \<lparr>updates = [js ''a'', js ''b''], ignore = []\<rparr>
       [(js ''a'', js ''A''), (js ''b'', js ''FAIL'')]"

definition demo_twice :: "bool \<Rightarrow> (jsstring list) environment" where
  "demo_twice commit =
     demo_env commit [js ''a''] \<lparr>updates = [js ''a'', js ''a''], ignore = []\<rparr>
       [(js ''a'', js ''A'')]"

text \<open>The loop sends script bodies and ledger writes only.\<close>

definition loop_call :: "pg_call \<Rightarrow> bool" where
  "loop_call c = (case c of Script q \<Rightarrow> True | UpdateRow h n \<Rightarrow> True | InsertRow n h \<Rightarrow> True
                  | _ \<Rightarrow> False)"

text \<open>The loop prints the fate of each entry only.\<close>

definition loop_message :: "message \<Rightarrow> bool" where
  "loop_message m = (case m of Skipping n \<Rightarrow> True | Applied n \<Rightarrow> True | _ \<Rightarrow> False)"

text \<open>The example of the specification, and a directory with a file no list names.\<close>

definition TABLE_file :: jsstring where
  "TABLE_file = js ''public.orders TABLE.sql''"

definition RLS_file :: jsstring where
  "RLS_file = js ''public.orders RLS.sql''"

definition demo_paired :: "bool \<Rightarrow> (jsstring list) environment" where
  "demo_paired commit =
     demo_env commit [TABLE_file, RLS_file] \<lparr>updates = [js ''a''], ignore = []\<rparr>
       [(js ''a'', js ''A'')]"

definition demo_orphan :: "bool \<Rightarrow> (jsstring list) environment" where
  "demo_orphan commit =
     demo_env commit [TABLE_file, js ''a''] \<lparr>updates = [js ''a''], ignore = []\<rparr>
       [(js ''a'', js ''A'')]"

text \<open>
  What a decision does to the rows of the ledger, the digest that the ledger records for a
  name (the one of the first row of that name, which is the row \<open>find\<close> returns), and the
  digest of the text of a script.
\<close>

definition ledger_write :: "decision \<Rightarrow> jsstring \<Rightarrow> jsstring \<Rightarrow> db_update list \<Rightarrow> db_update list" where
  "ledger_write dec n h rows =
     (case dec of
        Skip \<Rightarrow> rows
      | Update \<Rightarrow> map (\<lambda>r. if name r = n then r\<lparr>sha256 := h\<rparr> else r) rows
      | Insert \<Rightarrow> rows @ [\<lparr>name = n, sha256 = h\<rparr>])"

definition recorded :: "db_update list \<Rightarrow> jsstring \<Rightarrow> jsstring option" where
  "recorded rows n = map_option sha256 (find (\<lambda>r. name r = n) rows)"

definition digest_of :: "'o environment \<Rightarrow> jsstring \<Rightarrow> jsstring" where
  "digest_of env n = (case readFileSync env n of None \<Rightarrow> [] | Some script \<Rightarrow> sha256_hex env script)"

text \<open>A database whose ledger records the script \<open>a\<close> with the digest of an older text.\<close>

definition drifted_db :: "(jsstring list) database" where
  "drifted_db = \<lparr>objects = [js ''OLD''],
                  db_updates = Some [\<lparr>name = js ''a'', sha256 = js ''OLD''\<rparr>]\<rparr>"

text \<open>Two placeholders that share a percent sign.\<close>

definition adjacent_placeholders :: jsstring where
  "adjacent_placeholders = js ''%DEFAULT_COLUMNS%DEFAULT_TRIGGER(a.b)%''"

text \<open>
  The text that replaces a match of the trigger pattern with groups \<open>g1\<close> and \<open>g2\<close>: the
  template refers to the two groups only, so the matched text and what stands before and
  after it play no part.
\<close>

definition trigger_text :: "jsstring \<Rightarrow> jsstring \<Rightarrow> jsstring" where
  "trigger_text g1 g2 = get_substitution [] [] [] [g1, g2] DEFAULT_TRIGGER_TEXT"

text \<open>The text of a match of the trigger pattern with groups \<open>g1\<close> and \<open>g2\<close>.\<close>

definition trigger_placeholder :: "jsstring \<Rightarrow> jsstring \<Rightarrow> jsstring" where
  "trigger_placeholder g1 g2 = js ''%DEFAULT_TRIGGER('' @ g1 @ js ''.'' @ g2 @ js '')%''"

text \<open>Placeholders that do not touch: the trigger first, and the columns first.\<close>

definition both_placeholders :: jsstring where
  "both_placeholders = js ''%DEFAULT_TRIGGER(a.b)% %DEFAULT_COLUMNS%''"

definition columns_then_trigger :: jsstring where
  "columns_then_trigger = js ''%DEFAULT_COLUMNS% %DEFAULT_TRIGGER(a.b)%''"

text \<open>
  The two patterns of the pairing check as the specification words them. A name matches
  \<open><schema.object> TABLE*\<close> when it is a schema, a dot, an object, the text \<open>" TABLE"\<close>
  and anything after it; the prefix of that match is the schema, the dot and the object.
  A name matches \<open><schema.object> RLS*\<close> with the prefix \<open>p\<close> when it is \<open>p\<close>, the text
  \<open>" RLS"\<close> and anything after it.
\<close>

definition TABLE_pattern :: "jsstring \<Rightarrow> jsstring \<Rightarrow> jsstring \<Rightarrow> bool" where
  "TABLE_pattern schema object f =
     (strip_prefix (schema @ js ''.'' @ object @ js '' TABLE'') f \<noteq> None)"

definition RLS_pattern :: "jsstring \<Rightarrow> jsstring \<Rightarrow> bool" where
  "RLS_pattern p f = (strip_prefix (p @ js '' RLS'') f \<noteq> None)"

text \<open>
  What the expressions of the source ask for beyond that: a text of ASCII letters only
  (\<open>A\<close> to \<open>Z\<close> are the code units 65 to 90, \<open>a\<close> to \<open>z\<close> are 97 to 122), a text without
  a line terminator, and a text in which another text does not occur.
\<close>

definition ascii_letters :: "jsstring \<Rightarrow> bool" where
  "ascii_letters s = list_all (\<lambda>c. (65 \<le> c \<and> c \<le> 90) \<or> (97 \<le> c \<and> c \<le> 122)) s"

definition one_line :: "jsstring \<Rightarrow> bool" where
  "one_line s = list_all (\<lambda>c. c \<noteq> 10 \<and> c \<noteq> 13 \<and> c \<noteq> 8232 \<and> c \<noteq> 8233) s"

fun occurs_in :: "jsstring \<Rightarrow> jsstring \<Rightarrow> bool" where
  "occurs_in m [] = (m = [])"
| "occurs_in m (c # cs) = (strip_prefix m (c # cs) \<noteq> None \<or> occurs_in m cs)"

text \<open>
  A name that fits the pattern of the specification and whose schema holds an underscore,
  in a directory without a file for its policy; the file is on the \<open>ignore\<close> list, so
  that the other check has nothing to say about it.
\<close>

definition UNDERSCORE_file :: jsstring where
  "UNDERSCORE_file = js ''my_schema.orders TABLE.sql''"

definition demo_underscore :: "bool \<Rightarrow> (jsstring list) environment" where
  "demo_underscore commit =
     demo_env commit [UNDERSCORE_file, js ''a'']
       \<lparr>updates = [js ''a''], ignore = [UNDERSCORE_file]\<rparr> [(js ''a'', js ''A'')]"

section \<open>Facts about the matchers\<close>

lemma strip_prefix_iff: "strip_prefix p s = Some r \<longleftrightarrow> s = p @ r"
  by (induction p s rule: strip_prefix.induct) auto

lemma strip_prefix_None_iff: "strip_prefix p s = None \<longleftrightarrow> (\<forall>r. s \<noteq> p @ r)"
  by (induction p s rule: strip_prefix.induct) auto

lemma get_substitution_no_dollar:
  "36 \<notin> set r \<Longrightarrow> get_substitution m p a caps r = r"
  by (induction m p a caps r rule: get_substitution.induct) auto

lemma regex_search_None_iff:
  "regex_search m s = None \<longleftrightarrow> (\<forall>i\<le>length s. m (drop i s) = None)"
proof (induction s)
  case Nil
  then show ?case by (simp split: option.splits)
next
  case (Cons c cs)
  have "(\<forall>i\<le>length (c # cs). m (drop i (c # cs)) = None)
        \<longleftrightarrow> m (c # cs) = None \<and> (\<forall>i\<le>length cs. m (drop i cs) = None)"
    (is "?L \<longleftrightarrow> ?R")
  proof
    assume l: ?L
    have "m (drop 0 (c # cs)) = None" using l by blast
    moreover have "m (drop i cs) = None" if "i \<le> length cs" for i
      using l [rule_format, of "Suc i"] that by simp
    ultimately show ?R by simp
  next
    assume r: ?R
    show ?L
    proof (intro allI impI)
      fix i assume "i \<le> length (c # cs)"
      then show "m (drop i (c # cs)) = None" using r by (cases i) auto
    qed
  qed
  with Cons show ?case by (auto split: option.splits)
qed

lemma regex_search_SomeD:
  "regex_search m s = Some (pre, r) \<Longrightarrow>
     \<exists>post. s = pre @ post \<and> m post = Some r \<and> (\<forall>i<length pre. m (drop i s) = None)"
proof (induction s arbitrary: pre)
  case Nil
  then show ?case by (auto split: option.splits)
next
  case (Cons c cs)
  show ?case
  proof (cases "m (c # cs)")
    case (Some r')
    with Cons.prems show ?thesis by auto
  next
    case None
    with Cons.prems obtain pre' where s: "regex_search m cs = Some (pre', r)" and p: "pre = c # pre'"
      by (auto split: option.splits)
    from Cons.IH [OF s] obtain post where
      post: "cs = pre' @ post" "m post = Some r" "\<forall>i<length pre'. m (drop i cs) = None"
      by blast
    have "\<forall>i<length pre. m (drop i (c # cs)) = None"
    proof (intro allI impI)
      fix i assume "i < length pre"
      then show "m (drop i (c # cs)) = None"
        using None post(3) p by (cases i) auto
    qed
    with post p show ?thesis by auto
  qed
qed

lemma regex_search_hit:
  "m post = Some r \<Longrightarrow> (\<forall>i<length pre. m (drop i (pre @ post)) = None) \<Longrightarrow>
     regex_search m (pre @ post) = Some (pre, r)"
proof (induction pre)
  case Nil
  then show ?case by (cases post) auto
next
  case (Cons c pre)
  have a: "m (c # pre @ post) = None" using Cons.prems(2) [rule_format, of 0] by simp
  have b: "\<forall>i<length pre. m (drop i (pre @ post)) = None"
  proof (intro allI impI)
    fix i assume "i < length pre"
    then show "m (drop i (pre @ post)) = None"
      using Cons.prems(2) [rule_format, of "Suc i"] by simp
  qed
  show ?case using Cons.IH [OF Cons.prems(1) b] a by simp
qed

lemma js_Cons: "js (c # s) = of_char c # js s" and js_Nil: "js [] = []"
  by (simp_all add: js_def)

lemma js_append: "js (a @ b) = js a @ js b"
  by (simp add: js_def)

lemma rxDefaultTrigger_hd: "rxDefaultTrigger s = Some x \<Longrightarrow> \<exists>t. s = 37 # t"
  by (auto simp: rxDefaultTrigger_def strip_prefix_iff js_def split: option.splits)

lemma regex_search_trigger_no_percent:
  "37 \<notin> set s \<Longrightarrow> regex_search rxDefaultTrigger s = None"
proof -
  assume n: "37 \<notin> set s"
  have "rxDefaultTrigger (drop i s) = None" for i
  proof (cases "rxDefaultTrigger (drop i s)")
    case (Some x)
    then obtain t where "drop i s = 37 # t" using rxDefaultTrigger_hd by blast
    then have "37 \<in> set (drop i s)" by simp
    then have "37 \<in> set s" by (meson in_set_dropD)
    with n show ?thesis by simp
  qed simp
  then show ?thesis by (simp add: regex_search_None_iff)
qed

lemma DEFAULT_COLUMNS_TEXT_no_percent: "37 \<notin> set DEFAULT_COLUMNS_TEXT"
  by (simp add: DEFAULT_COLUMNS_TEXT_def js_def)

lemma DEFAULT_COLUMNS_TEXT_no_dollar: "36 \<notin> set DEFAULT_COLUMNS_TEXT"
  by (simp add: DEFAULT_COLUMNS_TEXT_def js_def)

lemma inject_trigger_no_percent: "37 \<notin> set s \<Longrightarrow> inject_trigger s = s"
  by (simp add: inject_trigger_def regex_search_trigger_no_percent)

lemma injectDefaults_placeholder:
  "injectDefaults DEFAULT_COLUMNS_PLACEHOLDER = DEFAULT_COLUMNS_TEXT"
proof -
  have "regex_search (strip_prefix DEFAULT_COLUMNS_PLACEHOLDER) ([] @ DEFAULT_COLUMNS_PLACEHOLDER)
          = Some ([], [])"
    by (rule regex_search_hit) (simp_all add: strip_prefix_iff)
  then have "inject_columns DEFAULT_COLUMNS_PLACEHOLDER = DEFAULT_COLUMNS_TEXT"
    by (simp add: inject_columns_def replace_string_def get_substitution_no_dollar
        DEFAULT_COLUMNS_TEXT_no_dollar)
  then show ?thesis
    by (simp add: injectDefaults_def inject_trigger_no_percent DEFAULT_COLUMNS_TEXT_no_percent)
qed

lemma lazy_star_SomeD:
  "lazy_star ok k s = Some (g, r) \<Longrightarrow>
     \<exists>t. s = g @ t \<and> (\<forall>c\<in>set g. ok c) \<and> k t = Some r"
proof (induction s arbitrary: g)
  case Nil
  then show ?case by (auto split: option.splits)
next
  case (Cons c cs)
  show ?case
  proof (cases "k (c # cs)")
    case (Some r')
    with Cons.prems show ?thesis by auto
  next
    case None
    with Cons.prems obtain g' where
      g: "ok c" "lazy_star ok k cs = Some (g', r)" "g = c # g'"
      by (auto split: option.splits if_splits)
    from Cons.IH [OF g(2)] obtain t where "cs = g' @ t" "\<forall>c\<in>set g'. ok c" "k t = Some r"
      by blast
    with g show ?thesis by auto
  qed
qed

section \<open>Unfolding a run\<close>

lemmas run_defs = main_def session_def initial_state_def exit_with_def checkEnvVars_def falsy_def
  manage_db_updates_table_def query_db_updates_def pg_begin_def pg_rollback_def pg_commit_def
  pg_script_def pg_update_def pg_insert_def issue_def say_def info_def ledger_rows_def
  apply_update_def
  printWarnings_def warnNotReferencedScripts_def warnTablesWithoutRLS_def truthy_def js_sort_def

lemmas demo_defs = demo_env_def demo_digest_def demo_sql_def fresh_db_def


section \<open>Facts about the loop\<close>

lemma apply_updates_append:
  "apply_updates env ap (xs @ ys) st =
     (case apply_updates env ap xs st of Inl e \<Rightarrow> Inl e | Inr st' \<Rightarrow> apply_updates env ap ys st')"
  by (induction xs arbitrary: st) (auto split: sum.splits)

lemma apply_update_Inr_file:
  "apply_update env ap u st = Inr st' \<Longrightarrow> \<exists>script. readFileSync env u = Some script"
  by (auto simp: apply_update_def split: option.splits)

lemma apply_update_calls:
  assumes "apply_update env ap u st = Inr st'"
  shows "calls st' = calls st @ entry_calls env ap u"
  using assms
  by (auto simp: apply_update_def entry_calls_def decide_def pg_script_def pg_update_def
      pg_insert_def issue_def say_def Let_def split: option.splits sum.splits if_splits)

lemma apply_updates_calls:
  "apply_updates env ap us st = Inr st' \<Longrightarrow>
     calls st' = calls st @ concat (map (entry_calls env ap) us)"
proof (induction us arbitrary: st)
  case Nil
  then show ?case by simp
next
  case (Cons u us)
  then obtain st1 where a: "apply_update env ap u st = Inr st1"
    and b: "apply_updates env ap us st1 = Inr st'"
    by (auto split: sum.splits)
  show ?case using Cons.IH [OF b] apply_update_calls [OF a] by simp
qed

lemma apply_update_tx:
  "apply_update env ap u st = Inr st' \<Longrightarrow> tx_start st' = tx_start st"
  "apply_update env ap u st = Inl (e, st'') \<Longrightarrow> tx_start st'' = tx_start st"
  by (auto simp: apply_update_def pg_script_def pg_update_def
      pg_insert_def issue_def say_def Let_def split: option.splits sum.splits if_splits)

lemma apply_updates_tx_Inr:
  "apply_updates env ap us st = Inr st' \<Longrightarrow> tx_start st' = tx_start st"
proof (induction us arbitrary: st)
  case (Cons u us)
  then obtain st1 where a: "apply_update env ap u st = Inr st1"
    and b: "apply_updates env ap us st1 = Inr st'"
    by (auto split: sum.splits)
  show ?case using Cons.IH [OF b] apply_update_tx(1) [OF a] by simp
qed simp

lemma apply_updates_tx_Inl:
  "apply_updates env ap us st = Inl (e, st') \<Longrightarrow> tx_start st' = tx_start st"
proof (induction us arbitrary: st)
  case (Cons u us)
  show ?case
  proof (cases "apply_update env ap u st")
    case (Inl x)
    with Cons.prems show ?thesis by (auto dest: apply_update_tx(2))
  next
    case (Inr st1)
    with Cons.prems have "apply_updates env ap us st1 = Inl (e, st')" by simp
    from Cons.IH [OF this] apply_update_tx(1) [OF Inr] show ?thesis by simp
  qed
qed simp

lemma apply_update_loop_calls:
  "apply_update env ap u st = Inr st' \<Longrightarrow> \<exists>cs. calls st' = calls st @ cs \<and> (\<forall>c\<in>set cs. loop_call c)"
  "apply_update env ap u st = Inl (e, st'') \<Longrightarrow>
     \<exists>cs. calls st'' = calls st @ cs \<and> (\<forall>c\<in>set cs. loop_call c)"
  by (auto simp: apply_update_def pg_script_def pg_update_def loop_call_def
      pg_insert_def issue_def say_def Let_def split: option.splits sum.splits if_splits)

lemma apply_updates_loop_calls_Inl:
  "apply_updates env ap us st = Inl (e, st') \<Longrightarrow>
     \<exists>cs. calls st' = calls st @ cs \<and> (\<forall>c\<in>set cs. loop_call c)"
proof (induction us arbitrary: st)
  case (Cons u us)
  show ?case
  proof (cases "apply_update env ap u st")
    case (Inl x)
    with Cons.prems show ?thesis by (auto dest: apply_update_loop_calls(2))
  next
    case (Inr st1)
    with Cons.prems have "apply_updates env ap us st1 = Inl (e, st')" by simp
    from Cons.IH [OF this] obtain cs where
      cs: "calls st' = calls st1 @ cs" "\<forall>c\<in>set cs. loop_call c" by blast
    from apply_update_loop_calls(1) [OF Inr] obtain cs1 where
      cs1: "calls st1 = calls st @ cs1" "\<forall>c\<in>set cs1. loop_call c" by blast
    have "calls st' = calls st @ (cs1 @ cs)" using cs cs1 by simp
    moreover have "\<forall>c\<in>set (cs1 @ cs). loop_call c" using cs cs1 by auto
    ultimately show ?thesis by blast
  qed
qed simp

lemma state_at_begin_simps:
  "db (state_at_begin d) = d\<lparr>db_updates := Some (ledger_rows d)\<rparr>"
  "tx_start (state_at_begin d) = Some (d\<lparr>db_updates := Some (ledger_rows d)\<rparr>)"
  "calls (state_at_begin d) = [Connect, ManageDbUpdates, SelectDbUpdates, Begin]"
  "console (state_at_begin d) = []"
  "updateCounter (state_at_begin d) = 0"
  by (simp_all add: state_at_begin_def)

text \<open>
  A run whose three statements before the loop are accepted enters the loop in
  \<open>state_at_begin\<close>; the other runs end before the loop.
\<close>

lemma state_at_begin_reached:
  assumes "manage_ok env" "select_ok env" "begin_ok env"
  shows "\<exists>st2 st3. manage_db_updates_table env (issue Connect (initial_state d)) = Inr st2
           \<and> query_db_updates env st2 = Inr (ledger_rows d, st3)
           \<and> pg_begin env st3 = Inr (state_at_begin d)"
  using assms
  by (simp add: query_db_updates_def pg_begin_def state_at_begin_def manage_db_updates_table_def
      issue_def ledger_rows_def initial_state_def)

lemma session_unfold:
  assumes "manage_ok env" "select_ok env" "begin_ok env"
  shows "session env us files (issue Connect (initial_state d)) =
     (case apply_updates env (ledger_rows d) (updates us) (state_at_begin d) of
        Inl (err, st4) \<Rightarrow> exit_with 1 (pg_rollback (say (Failed err) st4))
      | Inr st4 \<Rightarrow>
          if \<not> doCommit env
          then exit_with 0 (say NotCommitted (printWarnings us files (pg_rollback st4)))
          else exit_with 0 (printWarnings us files (pg_commit st4)))"
  using assms unfolding session_def info_def
  by (simp add: query_db_updates_def pg_begin_def state_at_begin_def
      manage_db_updates_table_def issue_def ledger_rows_def initial_state_def)

lemma session_manage_rejected:
  assumes "\<not> manage_ok env"
  shows "session env us files st =
     exit_with 1 (say (Failed (QueryError (js ''CREATE TABLE IF NOT EXISTS public.db_updates'')))
                    (issue ManageDbUpdates st))"
  using assms by (simp add: session_def manage_db_updates_table_def)

lemma session_select_rejected:
  assumes "manage_ok env" "\<not> select_ok env"
  shows "session env us files st =
     exit_with 1 (say (Failed (QueryError (js ''SELECT'')))
                    (issue SelectDbUpdates (issue ManageDbUpdates
                       (st\<lparr>db := (db st)\<lparr>db_updates := Some (ledger_rows (db st))\<rparr>\<rparr>))))"
  using assms
  by (simp add: session_def manage_db_updates_table_def query_db_updates_def issue_def)

lemma session_begin_rejected:
  assumes "manage_ok env" "select_ok env" "\<not> begin_ok env"
  shows "session env us files st =
     exit_with 1 (pg_rollback (say (Failed (QueryError (js ''BEGIN'')))
                    (issue Begin (issue SelectDbUpdates (issue ManageDbUpdates
                       (st\<lparr>db := (db st)\<lparr>db_updates := Some (ledger_rows (db st))\<rparr>\<rparr>))))))"
  using assms
  by (simp add: session_def manage_db_updates_table_def query_db_updates_def pg_begin_def
      issue_def)

lemma main_unfold:
  assumes "checkEnvVars env = None" "manifest_json env = Some us"
    "readdirSync env = Some listing" "connect_ok env"
  shows "main env d = session env us (js_sort listing) (issue Connect (initial_state d))"
  using assms by (simp add: main_def)

lemma ledger_rows_managed [simp]:
  "ledger_rows (d\<lparr>db_updates := Some (ledger_rows d)\<rparr>) = ledger_rows d"
  by (simp add: ledger_rows_def)

lemma inject_columns_no_percent: "37 \<notin> set s \<Longrightarrow> inject_columns s = s"
proof -
  assume n: "37 \<notin> set s"
  have "strip_prefix DEFAULT_COLUMNS_PLACEHOLDER (drop i s) = None" for i
  proof (cases "strip_prefix DEFAULT_COLUMNS_PLACEHOLDER (drop i s)")
    case (Some r)
    then have "drop i s = DEFAULT_COLUMNS_PLACEHOLDER @ r" by (simp add: strip_prefix_iff)
    then have "37 \<in> set (drop i s)" by (simp add: DEFAULT_COLUMNS_PLACEHOLDER_def js_def)
    then have "37 \<in> set s" by (meson in_set_dropD)
    with n show ?thesis by simp
  qed simp
  then have "regex_search (strip_prefix DEFAULT_COLUMNS_PLACEHOLDER) s = None"
    by (simp add: regex_search_None_iff)
  then show ?thesis by (simp add: inject_columns_def replace_string_def)
qed

lemma injectDefaults_no_percent: "37 \<notin> set s \<Longrightarrow> injectDefaults s = s"
  by (simp add: injectDefaults_def inject_columns_no_percent inject_trigger_no_percent)

lemma demo_bodies [simp]:
  "injectDefaults (js ''A'') = js ''A''" "injectDefaults (js ''FAIL'') = js ''FAIL''"
  by (simp_all add: injectDefaults_no_percent js_def)

lemmas loop_defs = apply_update_def pg_script_def pg_update_def pg_insert_def issue_def say_def
  decide_def entry_calls_def

lemma entry_calls_loop_call: "\<forall>c\<in>set (entry_calls env ap u). loop_call c"
proof (cases "readFileSync env u")
  case None
  then show ?thesis by (simp add: entry_calls_def)
next
  case (Some script)
  then show ?thesis
    by (cases "decide ap u (sha256_hex env script)") (simp_all add: entry_calls_def loop_call_def)
qed

lemma apply_updates_loop_calls_Inr:
  "apply_updates env ap us st = Inr st' \<Longrightarrow>
     \<exists>cs. calls st' = calls st @ cs \<and> (\<forall>c\<in>set cs. loop_call c)"
  using apply_updates_calls [of env ap us st st'] entry_calls_loop_call [of env ap]
  by auto

lemma main_exit_0D:
  assumes "exit_code (main env d) = 0"
  shows "checkEnvVars env = None \<and> connect_ok env
    \<and> manage_ok env \<and> select_ok env \<and> begin_ok env
    \<and> (\<exists>us listing st'. manifest_json env = Some us \<and> readdirSync env = Some listing
          \<and> apply_updates env (ledger_rows d) (updates us) (state_at_begin d) = Inr st')"
proof -
  have e: "checkEnvVars env = None"
    using assms by (cases "checkEnvVars env") (auto simp: main_def exit_with_def)
  obtain us where us: "manifest_json env = Some us"
    using assms e by (cases "manifest_json env") (auto simp: main_def exit_with_def Let_def)
  obtain listing where l: "readdirSync env = Some listing"
    using assms e us by (cases "readdirSync env") (auto simp: main_def exit_with_def Let_def)
  have c: "connect_ok env"
    using assms e us l by (cases "connect_ok env") (auto simp: main_def exit_with_def Let_def)
  note m = main_unfold [OF e us l c, of d]
  have mo: "manage_ok env"
    using assms m by (cases "manage_ok env") (auto simp: session_manage_rejected exit_with_def)
  have so: "select_ok env"
    using assms m mo
    by (cases "select_ok env") (auto simp: session_select_rejected exit_with_def)
  have bo: "begin_ok env"
    using assms m mo so
    by (cases "begin_ok env") (auto simp: session_begin_rejected exit_with_def)
  have "\<exists>st'. apply_updates env (ledger_rows d) (updates us) (state_at_begin d) = Inr st'"
    using assms m
    by (cases "apply_updates env (ledger_rows d) (updates us) (state_at_begin d)")
       (auto simp: session_unfold [OF mo so bo] exit_with_def)
  with e us l c mo so bo show ?thesis by blast
qed

lemma main_Inl:
  assumes "checkEnvVars env = None" "manifest_json env = Some us"
    "readdirSync env = Some listing" "connect_ok env"
    and "manage_ok env" "select_ok env" "begin_ok env"
    and "apply_updates env (ledger_rows d) (updates us) (state_at_begin d) = Inl (err, st4)"
  shows "main env d = exit_with 1 (pg_rollback (say (Failed err) st4))"
  using main_unfold [OF assms(1-4)] assms(8) by (simp add: session_unfold [OF assms(5-7)])

lemma main_Inr:
  assumes "checkEnvVars env = None" "manifest_json env = Some us"
    "readdirSync env = Some listing" "connect_ok env"
    and "manage_ok env" "select_ok env" "begin_ok env"
    and "apply_updates env (ledger_rows d) (updates us) (state_at_begin d) = Inr st4"
  shows "main env d =
     (if \<not> doCommit env
      then exit_with 0 (say NotCommitted (printWarnings us (js_sort listing) (pg_rollback st4)))
      else exit_with 0 (printWarnings us (js_sort listing) (pg_commit st4)))"
  using main_unfold [OF assms(1-4)] assms(8) by (simp add: session_unfold [OF assms(5-7)])

text \<open>
  A run in which one of the three statements before the loop is rejected: it ends with
  status 1 after that statement (after the \<open>ROLLBACK\<close> of the inner \<open>catch\<close> when the
  statement is \<open>BEGIN\<close>), and all it may have done is create the table.
\<close>

lemma main_prelude_rejected:
  assumes "checkEnvVars env = None" "manifest_json env = Some us"
    "readdirSync env = Some listing" "connect_ok env"
    and "\<not> (manage_ok env \<and> select_ok env \<and> begin_ok env)"
  shows "exit_code (main env d) = 1"
    and "calls (final (main env d)) =
           (if \<not> manage_ok env then [Connect, ManageDbUpdates]
            else if \<not> select_ok env then [Connect, ManageDbUpdates, SelectDbUpdates]
            else [Connect, ManageDbUpdates, SelectDbUpdates, Begin, Rollback])"
    and "db (final (main env d)) =
           (if manage_ok env then d\<lparr>db_updates := Some (ledger_rows d)\<rparr> else d)"
    and "tx_start (final (main env d)) = None"
    and "\<exists>e. console (final (main env d)) = [Failed e]"
proof -
  note m = main_unfold [OF assms(1-4), of d]
  from assms(5) consider "\<not> manage_ok env" | "manage_ok env" "\<not> select_ok env"
    | "manage_ok env" "select_ok env" "\<not> begin_ok env" by blast
  then have "exit_code (main env d) = 1
    \<and> calls (final (main env d)) =
           (if \<not> manage_ok env then [Connect, ManageDbUpdates]
            else if \<not> select_ok env then [Connect, ManageDbUpdates, SelectDbUpdates]
            else [Connect, ManageDbUpdates, SelectDbUpdates, Begin, Rollback])
    \<and> db (final (main env d)) =
           (if manage_ok env then d\<lparr>db_updates := Some (ledger_rows d)\<rparr> else d)
    \<and> tx_start (final (main env d)) = None
    \<and> (\<exists>e. console (final (main env d)) = [Failed e])"
  proof cases
    case 1
    from session_manage_rejected [OF 1] 1 show ?thesis
      unfolding m by (simp add: exit_with_def say_def issue_def initial_state_def)
  next
    case 2
    from session_select_rejected [OF 2] 2 show ?thesis
      unfolding m by (simp add: exit_with_def say_def issue_def initial_state_def)
  next
    case 3
    from session_begin_rejected [OF 3] 3 show ?thesis
      unfolding m
      by (simp add: exit_with_def say_def issue_def initial_state_def pg_rollback_def)
  qed
  then show "exit_code (main env d) = 1"
    and "calls (final (main env d)) =
           (if \<not> manage_ok env then [Connect, ManageDbUpdates]
            else if \<not> select_ok env then [Connect, ManageDbUpdates, SelectDbUpdates]
            else [Connect, ManageDbUpdates, SelectDbUpdates, Begin, Rollback])"
    and "db (final (main env d)) =
           (if manage_ok env then d\<lparr>db_updates := Some (ledger_rows d)\<rparr> else d)"
    and "tx_start (final (main env d)) = None"
    and "\<exists>e. console (final (main env d)) = [Failed e]"
    by blast+
qed

lemma checkEnvVars_manage_ok:
  "checkEnvVars (env\<lparr>manage_ok := b\<rparr>) = checkEnvVars env"
  by (simp add: checkEnvVars_def)

lemma demo_failing_env:
  "checkEnvVars (demo_failing c) = None"
  "manifest_json (demo_failing c) = Some \<lparr>updates = [js ''a'', js ''b''], ignore = []\<rparr>"
  "readdirSync (demo_failing c) = Some [js ''a'', js ''b'']"
  "connect_ok (demo_failing c)"
  "manage_ok (demo_failing c)" "select_ok (demo_failing c)" "begin_ok (demo_failing c)"
  "doCommit (demo_failing c) = c"
  by (simp_all add: checkEnvVars_def falsy_def demo_failing_def demo_defs js_def)

lemma demo_twice_env:
  "checkEnvVars (demo_twice c) = None"
  "manifest_json (demo_twice c) = Some \<lparr>updates = [js ''a'', js ''a''], ignore = []\<rparr>"
  "readdirSync (demo_twice c) = Some [js ''a'']"
  "connect_ok (demo_twice c)"
  "manage_ok (demo_twice c)" "select_ok (demo_twice c)" "begin_ok (demo_twice c)"
  "doCommit (demo_twice c) = c"
  by (simp_all add: checkEnvVars_def falsy_def demo_twice_def demo_defs js_def)

lemma demo_twice_loop:
  "apply_updates (demo_twice c) [] [js ''a'', js ''a''] (state_at_begin fresh_db)
     = Inr \<lparr>db = \<lparr>objects = [js ''A'', js ''A''],
                 db_updates = Some [\<lparr>name = js ''a'', sha256 = js ''A''\<rparr>,
                                    \<lparr>name = js ''a'', sha256 = js ''A''\<rparr>]\<rparr>,
          tx_start = Some \<lparr>objects = [], db_updates = Some []\<rparr>,
          calls = [Connect, ManageDbUpdates, SelectDbUpdates, Begin,
                   Script (js ''A''), InsertRow (js ''a'') (js ''A''),
                   Script (js ''A''), InsertRow (js ''a'') (js ''A'')],
          console = [Applied (js ''a''), Applied (js ''a'')], updateCounter = 2\<rparr>"
proof -
  have "js ''A'' \<noteq> js ''FAIL''" by (simp add: js_def)
  then show ?thesis
    by (simp add: run_defs state_at_begin_def demo_twice_def demo_defs Let_def)
qed

lemma demo_failing_loop:
  "apply_updates (demo_failing c) [] [js ''a'', js ''b''] (state_at_begin fresh_db)
     = Inl (QueryError (js ''FAIL''),
         \<lparr>db = \<lparr>objects = [js ''A''],
                 db_updates = Some [\<lparr>name = js ''a'', sha256 = js ''A''\<rparr>]\<rparr>,
          tx_start = Some \<lparr>objects = [], db_updates = Some []\<rparr>,
          calls = [Connect, ManageDbUpdates, SelectDbUpdates, Begin,
                   Script (js ''A''), InsertRow (js ''a'') (js ''A''), Script (js ''FAIL'')],
          console = [Applied (js ''a'')], updateCounter = 2\<rparr>)"
proof -
  have "js ''A'' \<noteq> js ''FAIL''" "js ''a'' \<noteq> js ''b''" by (simp_all add: js_def)
  then show ?thesis
    by (simp add: run_defs state_at_begin_def demo_failing_def demo_defs Let_def)
qed

lemma fresh_db_simps [simp]:
  "ledger_rows fresh_db = []" "objects fresh_db = []" "db_updates fresh_db = None"
  by (simp_all add: ledger_rows_def fresh_db_def)

lemma apply_update_calls_Inl:
  assumes "apply_update env ap u st = Inl (e, st')"
  shows "\<exists>cs cs'. calls st' = calls st @ cs \<and> entry_calls env ap u = cs @ cs'"
  using assms
  by (auto simp: apply_update_def entry_calls_def decide_def pg_script_def pg_update_def
      pg_insert_def issue_def say_def Let_def split: option.splits sum.splits if_splits)

lemma apply_updates_calls_Inl:
  "apply_updates env ap us st = Inl (e, st') \<Longrightarrow>
     \<exists>k cs cs'. k < length us
       \<and> calls st' = calls st @ concat (map (entry_calls env ap) (take k us)) @ cs
       \<and> entry_calls env ap (us ! k) = cs @ cs'"
proof (induction us arbitrary: st)
  case Nil
  then show ?case by simp
next
  case (Cons u us)
  show ?case
  proof (cases "apply_update env ap u st")
    case (Inl x)
    with Cons.prems have "apply_update env ap u st = Inl (e, st')" by simp
    from apply_update_calls_Inl [OF this] obtain cs cs' where
      "calls st' = calls st @ cs" "entry_calls env ap u = cs @ cs'" by blast
    then have "0 < length (u # us)
       \<and> calls st' = calls st @ concat (map (entry_calls env ap) (take 0 (u # us))) @ cs
       \<and> entry_calls env ap ((u # us) ! 0) = cs @ cs'" by simp
    then show ?thesis by blast
  next
    case (Inr st1)
    with Cons.prems have "apply_updates env ap us st1 = Inl (e, st')" by simp
    from Cons.IH [OF this] obtain k cs cs' where
      k: "k < length us"
        "calls st' = calls st1 @ concat (map (entry_calls env ap) (take k us)) @ cs"
        "entry_calls env ap (us ! k) = cs @ cs'" by blast
    have "Suc k < length (u # us)
       \<and> calls st' = calls st @ concat (map (entry_calls env ap) (take (Suc k) (u # us))) @ cs
       \<and> entry_calls env ap ((u # us) ! Suc k) = cs @ cs'"
      using k apply_update_calls [OF Inr] by simp
    then show ?thesis by blast
  qed
qed

lemma demo_twice_main:
  "main (demo_twice True) fresh_db =
     exit_with 0
       (printWarnings \<lparr>updates = [js ''a'', js ''a''], ignore = []\<rparr> (js_sort [js ''a''])
         (pg_commit \<lparr>db = \<lparr>objects = [js ''A'', js ''A''],
                 db_updates = Some [\<lparr>name = js ''a'', sha256 = js ''A''\<rparr>,
                                    \<lparr>name = js ''a'', sha256 = js ''A''\<rparr>]\<rparr>,
          tx_start = Some \<lparr>objects = [], db_updates = Some []\<rparr>,
          calls = [Connect, ManageDbUpdates, SelectDbUpdates, Begin,
                   Script (js ''A''), InsertRow (js ''a'') (js ''A''),
                   Script (js ''A''), InsertRow (js ''a'') (js ''A'')],
          console = [Applied (js ''a''), Applied (js ''a'')], updateCounter = 2\<rparr>))"
proof -
  have "apply_updates (demo_twice True) (ledger_rows fresh_db)
          (updates \<lparr>updates = [js ''a'', js ''a''], ignore = []\<rparr>) (state_at_begin fresh_db)
        = Inr \<lparr>db = \<lparr>objects = [js ''A'', js ''A''],
                 db_updates = Some [\<lparr>name = js ''a'', sha256 = js ''A''\<rparr>,
                                    \<lparr>name = js ''a'', sha256 = js ''A''\<rparr>]\<rparr>,
          tx_start = Some \<lparr>objects = [], db_updates = Some []\<rparr>,
          calls = [Connect, ManageDbUpdates, SelectDbUpdates, Begin,
                   Script (js ''A''), InsertRow (js ''a'') (js ''A''),
                   Script (js ''A''), InsertRow (js ''a'') (js ''A'')],
          console = [Applied (js ''a''), Applied (js ''a'')], updateCounter = 2\<rparr>"
    using demo_twice_loop [of True] by (simp del: apply_updates.simps)
  from main_Inr [OF demo_twice_env(1-7) this] show ?thesis
    by (simp add: demo_twice_env)
qed

section \<open>Facts about the consistency checks\<close>

lemma count_list_js_insort: "count_list (js_insort f fs) y = count_list (f # fs) y"
  by (induction fs) auto

lemma count_list_js_sort: "count_list (js_sort fs) y = count_list fs y"
  unfolding js_sort_def by (induction fs) (auto simp: count_list_js_insort)

lemma set_js_sort: "set (js_sort fs) = set fs"
proof -
  have "y \<in> set (js_sort fs) \<longleftrightarrow> y \<in> set fs" for y
    using count_list_js_sort [of fs y] by (metis count_list_0_iff)
  then show ?thesis by blast
qed

lemma count_list_filter:
  "count_list (filter P xs) x = (if P x then count_list xs x else 0)"
  by (induction xs) auto

lemma count_list_distinct: "distinct xs \<Longrightarrow> x \<in> set xs \<Longrightarrow> count_list xs x = 1"
  by (induction xs) auto

lemma count_list_map_inj: "inj f \<Longrightarrow> count_list (map f xs) (f x) = count_list xs x"
  by (induction xs) (auto dest: injD)

lemma count_list_none: "x \<notin> set xs \<Longrightarrow> count_list xs x = 0"
  by (induction xs) auto

lemma truthy_find:
  "(\<And>x. P x \<Longrightarrow> x \<noteq> []) \<Longrightarrow> truthy (find P xs) \<longleftrightarrow> (\<exists>x\<in>set xs. P x)"
  by (induction xs) (auto simp: truthy_def)

lemma find_absent: "f \<notin> set xs \<Longrightarrow> find (\<lambda>item. item = f) xs = None"
  by (induction xs) auto

lemma rxRLSName_Nil: "rxRLSName [] = None"
  by (simp add: rxRLSName_def js_def)

lemma apply_update_console:
  "apply_update env ap u st = Inr st' \<Longrightarrow>
     \<exists>ms. console st' = console st @ ms \<and> (\<forall>m\<in>set ms. loop_message m)"
  "apply_update env ap u st = Inl (e, st'') \<Longrightarrow> console st'' = console st"
  by (auto simp: apply_update_def pg_script_def pg_update_def loop_message_def
      pg_insert_def issue_def say_def Let_def split: option.splits sum.splits if_splits)

lemma apply_updates_console_Inr:
  "apply_updates env ap us st = Inr st' \<Longrightarrow>
     \<exists>ms. console st' = console st @ ms \<and> (\<forall>m\<in>set ms. loop_message m)"
proof (induction us arbitrary: st)
  case (Cons u us)
  then obtain st1 where a: "apply_update env ap u st = Inr st1"
    and b: "apply_updates env ap us st1 = Inr st'"
    by (auto split: sum.splits)
  from apply_update_console(1) [OF a] obtain ms1 where
    m1: "console st1 = console st @ ms1" "\<forall>m\<in>set ms1. loop_message m" by blast
  from Cons.IH [OF b] obtain ms where
    m: "console st' = console st1 @ ms" "\<forall>m\<in>set ms. loop_message m" by blast
  have "console st' = console st @ (ms1 @ ms)" using m m1 by simp
  moreover have "\<forall>m\<in>set (ms1 @ ms). loop_message m" using m m1 by auto
  ultimately show ?case by blast
qed simp

lemma apply_updates_console_Inl:
  "apply_updates env ap us st = Inl (e, st') \<Longrightarrow>
     \<exists>ms. console st' = console st @ ms \<and> (\<forall>m\<in>set ms. loop_message m)"
proof (induction us arbitrary: st)
  case (Cons u us)
  show ?case
  proof (cases "apply_update env ap u st")
    case (Inl x)
    with Cons.prems show ?thesis by (auto dest: apply_update_console(2))
  next
    case (Inr st1)
    with Cons.prems have b: "apply_updates env ap us st1 = Inl (e, st')" by simp
    from apply_update_console(1) [OF Inr] obtain ms1 where
      m1: "console st1 = console st @ ms1" "\<forall>m\<in>set ms1. loop_message m" by blast
    from Cons.IH [OF b] obtain ms where
      m: "console st' = console st1 @ ms" "\<forall>m\<in>set ms. loop_message m" by blast
    have "console st' = console st @ (ms1 @ ms)" using m m1 by simp
    moreover have "\<forall>m\<in>set (ms1 @ ms). loop_message m" using m m1 by auto
    ultimately show ?thesis by blast
  qed
qed simp

text \<open>The warnings of a run that reached the end of the loop are those of the two checks.\<close>

lemma console_of_complete_run:
  assumes "exit_code (main env d) = 0"
    and "manifest_json env = Some us" "readdirSync env = Some listing"
  shows "\<exists>ms. console (final (main env d)) =
            ms @ map NotReferenced (warnNotReferencedScripts us (js_sort listing))
               @ map NoRLSFound (warnTablesWithoutRLS (js_sort listing))
               @ (if doCommit env then [] else [NotCommitted])
          \<and> (\<forall>m\<in>set ms. loop_message m)"
proof -
  from main_exit_0D [OF assms(1)] assms(2,3) obtain st4 where
    e: "checkEnvVars env = None" "connect_ok env"
      "manage_ok env" "select_ok env" "begin_ok env"
    and loop: "apply_updates env (ledger_rows d) (updates us) (state_at_begin d) = Inr st4"
    by auto
  note m = main_Inr [OF e(1) assms(2,3) e(2-5) loop]
  from apply_updates_console_Inr [OF loop] obtain ms where
    ms: "console st4 = ms" "\<forall>m\<in>set ms. loop_message m"
    by (auto simp: state_at_begin_simps)
  show ?thesis
  proof (cases "doCommit env")
    case True
    then have "console (final (main env d)) =
            ms @ map NotReferenced (warnNotReferencedScripts us (js_sort listing))
               @ map NoRLSFound (warnTablesWithoutRLS (js_sort listing))
               @ (if doCommit env then [] else [NotCommitted])"
      using m ms by (simp add: exit_with_def say_def printWarnings_def pg_commit_def issue_def)
    with ms(2) show ?thesis by blast
  next
    case False
    then have "console (final (main env d)) =
            ms @ map NotReferenced (warnNotReferencedScripts us (js_sort listing))
               @ map NoRLSFound (warnTablesWithoutRLS (js_sort listing))
               @ (if doCommit env then [] else [NotCommitted])"
      using m ms
      by (simp add: exit_with_def say_def printWarnings_def pg_rollback_def issue_def
          split: option.splits)
    with ms(2) show ?thesis by blast
  qed
qed

lemma count_loop_messages:
  "\<forall>m\<in>set ms. loop_message m \<Longrightarrow> \<not> loop_message x \<Longrightarrow> count_list ms x = 0"
  by (auto intro: count_list_none)

lemma count_map_other:
  "(\<And>y. g y \<noteq> x) \<Longrightarrow> count_list (map g ys) x = 0"
  by (induction ys) auto

lemma warnings_of_complete_run:
  assumes "exit_code (main env d) = 0"
    and "manifest_json env = Some us" "readdirSync env = Some listing"
  shows "count_list (console (final (main env d))) (NotReferenced f)
           = count_list (warnNotReferencedScripts us (js_sort listing)) f"
    and "count_list (console (final (main env d))) (NoRLSFound f)
           = count_list (warnTablesWithoutRLS (js_sort listing)) f"
proof -
  from console_of_complete_run [OF assms] obtain ms where
    c: "console (final (main env d)) =
            ms @ map NotReferenced (warnNotReferencedScripts us (js_sort listing))
               @ map NoRLSFound (warnTablesWithoutRLS (js_sort listing))
               @ (if doCommit env then [] else [NotCommitted])"
    and ms: "\<forall>m\<in>set ms. loop_message m"
    by blast
  have i1: "inj NotReferenced" and i2: "inj NoRLSFound" by (auto simp: inj_def)
  have z1: "count_list ms (NotReferenced f) = 0" "count_list ms (NoRLSFound f) = 0"
    using ms by (auto intro!: count_loop_messages simp: loop_message_def)
  have z2: "count_list (map NoRLSFound xs) (NotReferenced f) = 0"
    "count_list (map NotReferenced xs) (NoRLSFound f) = 0" for xs
    by (auto intro!: count_map_other)
  show "count_list (console (final (main env d))) (NotReferenced f)
           = count_list (warnNotReferencedScripts us (js_sort listing)) f"
    by (auto simp: c z1 z2 count_list_map_inj [OF i1])
  show "count_list (console (final (main env d))) (NoRLSFound f)
           = count_list (warnTablesWithoutRLS (js_sort listing)) f"
    by (auto simp: c z1 z2 count_list_map_inj [OF i2])
qed

text \<open>The loop reads the scripts, the digest and the driver, and nothing else of its input.\<close>

lemma apply_update_env:
  assumes "readFileSync env' = readFileSync env" "sha256_hex env' = sha256_hex env"
    "run_sql env' = run_sql env"
  shows "apply_update env' ap u st = apply_update env ap u st"
proof -
  have p: "pg_script env' = pg_script env"
    by (intro ext) (simp add: pg_script_def assms)
  show ?thesis unfolding apply_update_def p assms by (rule refl)
qed

lemma apply_updates_env:
  assumes "readFileSync env' = readFileSync env" "sha256_hex env' = sha256_hex env"
    "run_sql env' = run_sql env"
  shows "apply_updates env' ap us st = apply_updates env ap us st"
  by (induction us arbitrary: st) (auto simp: apply_update_env [OF assms] split: sum.splits)

lemma main_without_warnings:
  assumes "manifest_json env = Some us" "readdirSync env = Some listing"
  shows "exit_code (main (env\<lparr>readdirSync := Some listing',
                              manifest_json := Some (us\<lparr>ignore := ig\<rparr>)\<rparr>) d)
           = exit_code (main env d)
    \<and> calls (final (main (env\<lparr>readdirSync := Some listing',
                                manifest_json := Some (us\<lparr>ignore := ig\<rparr>)\<rparr>) d))
           = calls (final (main env d))
    \<and> db (final (main (env\<lparr>readdirSync := Some listing',
                             manifest_json := Some (us\<lparr>ignore := ig\<rparr>)\<rparr>) d))
           = db (final (main env d))"
proof -
  let ?env' = "env\<lparr>readdirSync := Some listing', manifest_json := Some (us\<lparr>ignore := ig\<rparr>)\<rparr>"
  have ce: "checkEnvVars ?env' = checkEnvVars env" by (simp add: checkEnvVars_def)
  have lp: "apply_updates ?env' ap xs st = apply_updates env ap xs st" for ap xs st
    by (rule apply_updates_env) simp_all
  show ?thesis
  proof (cases "checkEnvVars env")
    case (Some key)
    then show ?thesis using ce by (simp add: main_def exit_with_def say_def)
  next
    case None
    show ?thesis
    proof (cases "connect_ok env")
      case False
      then show ?thesis
        using None ce assms by (simp add: main_def exit_with_def say_def issue_def)
    next
      case True
      have m: "main env d = session env us (js_sort listing) (issue Connect (initial_state d))"
        using main_unfold [OF None assms True] .
      have m': "main ?env' d
          = session ?env' (us\<lparr>ignore := ig\<rparr>) (js_sort listing') (issue Connect (initial_state d))"
        by (rule main_unfold) (use None ce True in simp_all)
      show ?thesis
      proof (cases "manage_ok env \<and> select_ok env \<and> begin_ok env")
        case ok: True
        then have ok': "manage_ok ?env'" "select_ok ?env'" "begin_ok ?env'" by simp_all
        from ok have ok: "manage_ok env" "select_ok env" "begin_ok env" by simp_all
        show ?thesis
          unfolding m m' session_unfold [OF ok] session_unfold [OF ok'] lp
          by (cases "apply_updates env (ledger_rows d) (updates us) (state_at_begin d)")
             (auto simp: exit_with_def say_def printWarnings_def pg_rollback_def pg_commit_def
               issue_def split: option.splits)
      next
        case False
        then consider "\<not> manage_ok env" | "manage_ok env" "\<not> select_ok env"
          | "manage_ok env" "select_ok env" "\<not> begin_ok env" by blast
        then show ?thesis
        proof cases
          case 1
          then have "\<not> manage_ok ?env'" by simp
          from session_manage_rejected [OF 1] session_manage_rejected [OF this]
          show ?thesis unfolding m m' by (simp add: exit_with_def say_def issue_def)
        next
          case 2
          then have "manage_ok ?env'" "\<not> select_ok ?env'" by simp_all
          from session_select_rejected [OF 2] session_select_rejected [OF this]
          show ?thesis unfolding m m' by (simp add: exit_with_def say_def issue_def)
        next
          case 3
          then have "manage_ok ?env'" "select_ok ?env'" "\<not> begin_ok ?env'" by simp_all
          from session_begin_rejected [OF 3] session_begin_rejected [OF this]
          show ?thesis
            unfolding m m'
            by (simp add: exit_with_def say_def issue_def pg_rollback_def initial_state_def)
        qed
      qed
    qed
  qed
qed

lemma main_exit_0I:
  assumes "checkEnvVars env = None" "manifest_json env = Some us"
    "readdirSync env = Some listing" "connect_ok env"
    and "manage_ok env" "select_ok env" "begin_ok env"
    and "apply_updates env (ledger_rows d) (updates us) (state_at_begin d) = Inr st4"
  shows "exit_code (main env d) = 0"
  using main_Inr [OF assms] by (simp add: exit_with_def)

lemma no_rls_message_origin:
  assumes "manifest_json env = Some us" "readdirSync env = Some listing"
    and "NoRLSFound f \<in> set (console (final (main env d)))"
  shows "f \<in> set (warnTablesWithoutRLS (js_sort listing))"
proof (cases "exit_code (main env d) = 0")
  case True
  from warnings_of_complete_run(2) [OF True assms(1,2), of f] assms(3)
  show ?thesis by (metis count_list_0_iff)
next
  case False
  have "NoRLSFound f \<notin> set (console (final (main env d)))"
  proof (cases "checkEnvVars env")
    case (Some key)
    then show ?thesis by (simp add: main_def exit_with_def say_def initial_state_def)
  next
    case None
    show ?thesis
    proof (cases "connect_ok env")
      case c: False
      then show ?thesis
        using None assms(1,2)
        by (simp add: main_def exit_with_def say_def issue_def initial_state_def)
    next
      case c: True
      show ?thesis
      proof (cases "manage_ok env \<and> select_ok env \<and> begin_ok env")
        case False
        from main_prelude_rejected(5) [OF None assms(1,2) c False, of d]
        show ?thesis by auto
      next
        case True
        then have ok: "manage_ok env" "select_ok env" "begin_ok env" by simp_all
        show ?thesis
        proof (cases "apply_updates env (ledger_rows d) (updates us) (state_at_begin d)")
          case (Inl x)
          obtain err st4 where x: "x = (err, st4)" by (cases x)
          have loop: "apply_updates env (ledger_rows d) (updates us) (state_at_begin d)
              = Inl (err, st4)" using Inl x by simp
          from apply_updates_console_Inl [OF loop] obtain ms where
            ms: "console st4 = ms" "\<forall>m\<in>set ms. loop_message m"
            by (auto simp: state_at_begin_simps)
          have "\<not> loop_message (NoRLSFound f)" by (simp add: loop_message_def)
          then have "NoRLSFound f \<notin> set ms" using ms(2) by blast
          then show ?thesis
            using main_Inl [OF None assms(1,2) c ok loop] ms(1)
            by (simp add: exit_with_def pg_rollback_def say_def issue_def split: option.splits)
        next
          case (Inr st4)
          from main_exit_0I [OF None assms(1,2) c ok Inr] \<open>exit_code (main env d) \<noteq> 0\<close>
          show ?thesis by simp
        qed
      qed
    qed
  qed
  with assms(3) show ?thesis by simp
qed

text \<open>No run prints the summary that line 312 hands to \<open>info\<close>.\<close>

lemma summary_is_not_printed:
  "UpdatesApplied n \<notin> set (console (final (main env d)))"
proof (cases "checkEnvVars env")
  case (Some key)
  then show ?thesis by (simp add: main_def exit_with_def say_def initial_state_def)
next
  case None
  show ?thesis
  proof (cases "manifest_json env")
    case m: None
    then show ?thesis
      using None by (simp add: main_def exit_with_def say_def initial_state_def Let_def)
  next
    case m: (Some us)
    show ?thesis
    proof (cases "readdirSync env")
      case r: None
      then show ?thesis
        using None m by (simp add: main_def exit_with_def say_def initial_state_def Let_def)
    next
      case r: (Some listing)
      show ?thesis
      proof (cases "connect_ok env")
        case False
        then show ?thesis
          using None m r
          by (simp add: main_def exit_with_def say_def issue_def initial_state_def)
      next
        case c: True
        show ?thesis
        proof (cases "manage_ok env \<and> select_ok env \<and> begin_ok env")
          case False
          from main_prelude_rejected(5) [OF None m r c False, of d]
          show ?thesis by auto
        next
          case True
          then have ok: "manage_ok env" "select_ok env" "begin_ok env" by simp_all
          have nl: "\<not> loop_message (UpdatesApplied n)" by (simp add: loop_message_def)
          show ?thesis
          proof (cases "apply_updates env (ledger_rows d) (updates us) (state_at_begin d)")
            case (Inl x)
            obtain err st4 where x: "x = (err, st4)" by (cases x)
            have loop: "apply_updates env (ledger_rows d) (updates us) (state_at_begin d)
                = Inl (err, st4)" using Inl x by simp
            from apply_updates_console_Inl [OF loop] obtain ms where
              ms: "console st4 = ms" "\<forall>m\<in>set ms. loop_message m"
              by (auto simp: state_at_begin_simps)
            from nl ms(2) have "UpdatesApplied n \<notin> set ms" by blast
            then show ?thesis
              using main_Inl [OF None m r c ok loop] ms(1)
              by (simp add: exit_with_def pg_rollback_def say_def issue_def split: option.splits)
          next
            case (Inr st4)
            from apply_updates_console_Inr [OF Inr] obtain ms where
              ms: "console st4 = ms" "\<forall>m\<in>set ms. loop_message m"
              by (auto simp: state_at_begin_simps)
            from nl ms(2) have "UpdatesApplied n \<notin> set ms" by blast
            then show ?thesis
              using main_Inr [OF None m r c ok Inr] ms(1)
              by (auto simp: exit_with_def pg_rollback_def pg_commit_def say_def issue_def
                  printWarnings_def split: option.splits)
          qed
        qed
      qed
    qed
  qed
qed

lemma example_names:
  "rxTableName TABLE_file = Some (js ''public.orders'')"
  "rxRLSName RLS_file = Some (js ''public.orders'')"
  "rxRLSName TABLE_file = None"
  "rxTableName RLS_file = None"
  "rxTableName (js ''a'') = None"
  "rxRLSName (js ''a'') = None"
  by (simp_all add: rxTableName_def rxRLSName_def TABLE_file_def RLS_file_def js_def
      rx_alpha_def rx_dot_def is_line_terminator_def)

lemma example_names_differ:
  "TABLE_file \<noteq> js ''a''" "RLS_file \<noteq> js ''a''" "TABLE_file \<noteq> RLS_file"
  "TABLE_file \<noteq> []" "RLS_file \<noteq> []"
  by (simp_all add: TABLE_file_def RLS_file_def js_def)

lemma demo_orphan_env:
  "checkEnvVars (demo_orphan c) = None"
  "manifest_json (demo_orphan c) = Some \<lparr>updates = [js ''a''], ignore = []\<rparr>"
  "readdirSync (demo_orphan c) = Some [TABLE_file, js ''a'']"
  "connect_ok (demo_orphan c)"
  "manage_ok (demo_orphan c)" "select_ok (demo_orphan c)" "begin_ok (demo_orphan c)"
  "doCommit (demo_orphan c) = c"
  by (simp_all add: checkEnvVars_def falsy_def demo_orphan_def demo_defs js_def)

lemma demo_paired_env:
  "checkEnvVars (demo_paired c) = None"
  "manifest_json (demo_paired c) = Some \<lparr>updates = [js ''a''], ignore = []\<rparr>"
  "readdirSync (demo_paired c) = Some [TABLE_file, RLS_file]"
  "connect_ok (demo_paired c)"
  "manage_ok (demo_paired c)" "select_ok (demo_paired c)" "begin_ok (demo_paired c)"
  "doCommit (demo_paired c) = c"
  by (simp_all add: checkEnvVars_def falsy_def demo_paired_def demo_defs js_def)

lemma demo_one_script_loop:
  assumes "readFileSync env = map_of [(js ''a'', js ''A'')]" "sha256_hex env = demo_digest"
    "run_sql env = demo_sql"
  shows "apply_updates env (ledger_rows fresh_db)
           (updates \<lparr>updates = [js ''a''], ignore = []\<rparr>) (state_at_begin fresh_db)
     = Inr \<lparr>db = \<lparr>objects = [js ''A''],
                 db_updates = Some [\<lparr>name = js ''a'', sha256 = js ''A''\<rparr>]\<rparr>,
          tx_start = Some \<lparr>objects = [], db_updates = Some []\<rparr>,
          calls = [Connect, ManageDbUpdates, SelectDbUpdates, Begin,
                   Script (js ''A''), InsertRow (js ''a'') (js ''A'')],
          console = [Applied (js ''a'')], updateCounter = 1\<rparr>"
proof -
  have "js ''A'' \<noteq> js ''FAIL''" by (simp add: js_def)
  then show ?thesis
    using assms by (simp add: run_defs state_at_begin_def demo_defs Let_def)
qed

lemma demo_orphan_exit: "exit_code (main (demo_orphan c) fresh_db) = 0"
  by (rule main_exit_0I [OF demo_orphan_env(1-7) demo_one_script_loop])
     (simp_all add: demo_orphan_def demo_env_def)

lemma demo_paired_exit: "exit_code (main (demo_paired c) fresh_db) = 0"
  by (rule main_exit_0I [OF demo_paired_env(1-7) demo_one_script_loop])
     (simp_all add: demo_paired_def demo_env_def)

text \<open>
  The shape of the names the two patterns accept: a name matched by \<open>rxTableName\<close>
  starts with its group, which is letters, a dot and characters of one line, followed by
  \<open>" TABLE"\<close>; a name matched by \<open>rxRLSName\<close> contains its group followed by
  \<open>" RLS"\<close>.
\<close>

lemma rxTableName_shape:
  assumes "rxTableName f = Some p"
  shows "\<exists>schema object rest. p = schema @ js ''.'' @ object \<and> f = p @ js '' TABLE'' @ rest
           \<and> (\<forall>c\<in>set schema. rx_alpha c) \<and> (\<forall>c\<in>set object. rx_dot c)"
proof -
  let ?k = "\<lambda>s1. case strip_prefix (js ''.'') s1 of
                    None \<Rightarrow> None
                  | Some s2 \<Rightarrow> lazy_star rx_dot (strip_prefix (js '' TABLE'')) s2"
  from assms obtain schema object post where
    l: "lazy_star rx_alpha ?k f = Some (schema, object, post)"
    and p: "p = schema @ js ''.'' @ object"
    by (auto simp: rxTableName_def split: option.splits)
  from lazy_star_SomeD [OF l] obtain t1 where
    t1: "f = schema @ t1" "\<forall>c\<in>set schema. rx_alpha c" "?k t1 = Some (object, post)" by blast
  from t1(3) obtain s2 where s2: "strip_prefix (js ''.'') t1 = Some s2"
    and l2: "lazy_star rx_dot (strip_prefix (js '' TABLE'')) s2 = Some (object, post)"
    by (auto split: option.splits)
  from lazy_star_SomeD [OF l2] obtain t2 where
    t2: "s2 = object @ t2" "\<forall>c\<in>set object. rx_dot c"
      "strip_prefix (js '' TABLE'') t2 = Some post" by blast
  have "f = p @ js '' TABLE'' @ post"
    using t1(1) s2 t2(1,3) p by (simp add: strip_prefix_iff)
  with p t1(2) t2(2) show ?thesis by blast
qed

lemma rxRLSName_shape:
  assumes "rxRLSName f = Some p"
  shows "\<exists>pre rest. f = pre @ p @ js '' RLS'' @ rest \<and> (\<forall>c\<in>set p. rx_dot c)"
proof -
  from assms obtain pre post where
    s: "regex_search (lazy_star rx_dot (strip_prefix (js '' RLS''))) f = Some (pre, p, post)"
    by (auto simp: rxRLSName_def split: option.splits)
  from regex_search_SomeD [OF s] obtain t where
    t: "f = pre @ t" "lazy_star rx_dot (strip_prefix (js '' RLS'')) t = Some (p, post)"
    by blast
  from lazy_star_SomeD [OF t(2)] obtain t2 where
    t2: "t = p @ t2" "\<forall>c\<in>set p. rx_dot c" "strip_prefix (js '' RLS'') t2 = Some post"
    by blast
  have "f = pre @ p @ js '' RLS'' @ post"
    using t(1) t2(1,3) by (simp add: strip_prefix_iff)
  with t2(2) show ?thesis by blast
qed

text \<open>
  The pairing check in terms of the first groups of the two expressions: a file whose name
  \<open>rxTableName\<close> matches is collected, once, exactly when no name of the directory gives
  \<open>rxRLSName\<close> the same first group.
\<close>

lemma warned_by_first_groups:
  assumes "manifest_json env = Some us" "readdirSync env = Some listing" "distinct listing"
    and "f \<in> set listing" "rxTableName f = Some p"
  shows "((\<forall>f2\<in>set listing. rxRLSName f2 \<noteq> Some p) \<longrightarrow>
            count_list (warnTablesWithoutRLS (js_sort listing)) f = 1
          \<and> (exit_code (main env d) = 0 \<longrightarrow>
               count_list (console (final (main env d))) (NoRLSFound f) = 1))
    \<and> ((\<exists>f2\<in>set listing. rxRLSName f2 = Some p) \<longrightarrow>
            f \<notin> set (warnTablesWithoutRLS (js_sort listing))
          \<and> NoRLSFound f \<notin> set (console (final (main env d))))"
proof -
  let ?files = "js_sort listing"
  let ?P = "\<lambda>f2. rxRLSName f2 \<noteq> None \<and> rxTableName f = rxRLSName f2"
  have ne: "x \<noteq> []" if "?P x" for x
    using that rxRLSName_Nil by auto
  have t: "truthy (find ?P ?files) \<longleftrightarrow> (\<exists>f2\<in>set listing. rxRLSName f2 = Some p)"
    using truthy_find [of ?P ?files, OF ne] assms(5) by (auto simp: set_js_sort)
  have c: "count_list ?files f = 1"
    using assms(3,4) by (simp add: count_list_js_sort count_list_distinct)
  have w: "count_list (warnTablesWithoutRLS ?files) f
      = (if \<exists>f2\<in>set listing. rxRLSName f2 = Some p then 0 else 1)"
    using c t assms(5) by (simp add: warnTablesWithoutRLS_def count_list_filter)
  show ?thesis
  proof (intro conjI impI)
    assume n: "\<forall>f2\<in>set listing. rxRLSName f2 \<noteq> Some p"
    then show "count_list (warnTablesWithoutRLS ?files) f = 1" using w by auto
    assume "exit_code (main env d) = 0"
    from warnings_of_complete_run(2) [OF this assms(1,2), of f] n w
    show "count_list (console (final (main env d))) (NoRLSFound f) = 1" by auto
  next
    assume s: "\<exists>f2\<in>set listing. rxRLSName f2 = Some p"
    then have "count_list (warnTablesWithoutRLS ?files) f = 0" using w by simp
    then show a: "f \<notin> set (warnTablesWithoutRLS ?files)" by (simp add: count_list_0_iff)
    show "NoRLSFound f \<notin> set (console (final (main env d)))"
      using no_rls_message_origin [OF assms(1,2)] a by blast
  qed
qed

section \<open>Facts about the ledger\<close>

lemma decide_recorded:
  "decide ap n h = (case recorded ap n of None \<Rightarrow> Insert
                    | Some x \<Rightarrow> if x = h then Skip else Update)"
  by (simp add: decide_def recorded_def split: option.splits)

lemma apply_update_ledger:
  assumes "apply_update env ap u st = Inr st'"
  shows "ledger_rows (db st')
           = ledger_write (decide ap u (digest_of env u)) u (digest_of env u) (ledger_rows (db st))"
    and "objects (db st') = objects (db st) \<or> decide ap u (digest_of env u) \<noteq> Skip"
    and "db_updates (db st) \<noteq> None \<Longrightarrow> db_updates (db st') \<noteq> None"
    and "decide ap u (digest_of env u) = Skip \<Longrightarrow> st' = say (Skipping u) st"
  using assms
  by (auto simp: apply_update_def decide_def digest_of_def ledger_write_def ledger_rows_def
      pg_script_def pg_update_def pg_insert_def issue_def say_def Let_def
      split: option.splits sum.splits if_splits)

lemma recorded_ledger_write:
  "recorded (ledger_write dec u h rows) n =
     (case dec of
        Skip \<Rightarrow> recorded rows n
      | Update \<Rightarrow> if n = u then map_option (\<lambda>x. h) (recorded rows n) else recorded rows n
      | Insert \<Rightarrow> (case recorded rows n of
                     Some x \<Rightarrow> Some x
                   | None \<Rightarrow> if n = u then Some h else None))"
proof (cases dec)
  case Skip
  then show ?thesis by (simp add: ledger_write_def)
next
  case Update
  have "recorded (map (\<lambda>r. if name r = u then r\<lparr>sha256 := h\<rparr> else r) rows) n
      = (if n = u then map_option (\<lambda>x. h) (recorded rows n) else recorded rows n)"
    by (induction rows) (auto simp: recorded_def)
  with Update show ?thesis by (simp add: ledger_write_def)
next
  case Insert
  have "recorded (rows @ [\<lparr>name = u, sha256 = h\<rparr>]) n
      = (case recorded rows n of Some x \<Rightarrow> Some x | None \<Rightarrow> if n = u then Some h else None)"
    by (induction rows) (auto simp: recorded_def)
  with Insert show ?thesis by (simp add: ledger_write_def)
qed

text \<open>
  After the loop, a name that was processed is recorded with the digest of its script,
  and any other name is recorded as the snapshot has it.
\<close>

lemma apply_updates_recorded:
  assumes "apply_updates env ap us st = Inr st'"
    and "\<And>n. n \<notin> S \<Longrightarrow> recorded (ledger_rows (db st)) n = recorded ap n"
    and "\<And>n. n \<in> S \<Longrightarrow> recorded (ledger_rows (db st)) n = Some (digest_of env n)"
  shows "recorded (ledger_rows (db st')) n
           = (if n \<in> S \<union> set us then Some (digest_of env n) else recorded ap n)"
  using assms
proof (induction us arbitrary: st S)
  case Nil
  then show ?case by simp
next
  case (Cons u us)
  from Cons.prems(1) obtain st1 where a: "apply_update env ap u st = Inr st1"
    and b: "apply_updates env ap us st1 = Inr st'"
    by (auto split: sum.splits)
  let ?h = "digest_of env u"
  have r1: "recorded (ledger_rows (db st1)) m
      = (if m \<in> insert u S then Some (digest_of env m) else recorded ap m)" for m
  proof (cases "u \<in> S")
    case True
    then show ?thesis
      using Cons.prems(2) [of m] Cons.prems(3) [of m] Cons.prems(3) [of u]
      by (auto simp: apply_update_ledger(1) [OF a] recorded_ledger_write decide_recorded
          split: option.splits decision.splits)
  next
    case False
    then show ?thesis
      using Cons.prems(2) [of m] Cons.prems(3) [of m] Cons.prems(2) [of u]
      by (auto simp: apply_update_ledger(1) [OF a] recorded_ledger_write decide_recorded
          split: option.splits decision.splits)
  qed
  have "recorded (ledger_rows (db st')) n
      = (if n \<in> insert u S \<union> set us then Some (digest_of env n) else recorded ap n)"
    by (rule Cons.IH [OF b]) (simp_all add: r1)
  then show ?case by simp
qed

lemma apply_updates_all_skip:
  assumes "\<And>u. u \<in> set us \<Longrightarrow> readFileSync env u \<noteq> None"
    and "\<And>u. u \<in> set us \<Longrightarrow> decide ap u (digest_of env u) = Skip"
  shows "apply_updates env ap us st = Inr (st\<lparr>console := console st @ map Skipping us\<rparr>)"
  using assms
proof (induction us arbitrary: st)
  case Nil
  then show ?case by simp
next
  case (Cons u us)
  from Cons.prems(1) [of u] obtain script where f: "readFileSync env u = Some script" by auto
  have s: "apply_update env ap u st = Inr (say (Skipping u) st)"
    using Cons.prems(2) [of u] f
    by (auto simp: apply_update_def decide_def digest_of_def Let_def split: option.splits if_splits)
  have "apply_updates env ap us (say (Skipping u) st)
      = Inr ((say (Skipping u) st)\<lparr>console := console (say (Skipping u) st) @ map Skipping us\<rparr>)"
    by (rule Cons.IH) (simp_all add: Cons.prems)
  then show ?case using s by (simp add: say_def)
qed

lemma apply_updates_files:
  "apply_updates env ap us st = Inr st' \<Longrightarrow> u \<in> set us \<Longrightarrow> readFileSync env u \<noteq> None"
proof (induction us arbitrary: st)
  case (Cons v us)
  from Cons.prems(1) obtain st1 where a: "apply_update env ap v st = Inr st1"
    and b: "apply_updates env ap us st1 = Inr st'"
    by (auto split: sum.splits)
  show ?case
    using Cons.IH [OF b] Cons.prems(2) apply_update_Inr_file [OF a] by auto
qed simp

lemma apply_updates_table:
  "apply_updates env ap us st = Inr st' \<Longrightarrow> db_updates (db st) \<noteq> None \<Longrightarrow>
     db_updates (db st') \<noteq> None"
proof (induction us arbitrary: st)
  case (Cons v us)
  from Cons.prems(1) obtain st1 where a: "apply_update env ap v st = Inr st1"
    and b: "apply_updates env ap us st1 = Inr st'"
    by (auto split: sum.splits)
  show ?case
    using Cons.IH [OF b] apply_update_ledger(3) [OF a] Cons.prems(2) by blast
qed simp

lemma managed_table_id:
  "db_updates d \<noteq> None \<Longrightarrow> d\<lparr>db_updates := Some (ledger_rows d)\<rparr> = d"
  by (cases d) (auto simp: ledger_rows_def)

lemma recorded_after_commit:
  assumes "apply_updates env (ledger_rows d) us (state_at_begin d) = Inr st4"
  shows "recorded (ledger_rows (db st4)) n
           = (if n \<in> set us then Some (digest_of env n) else recorded (ledger_rows d) n)"
  using apply_updates_recorded [OF assms, of "{}" n] by (simp add: state_at_begin_simps)

lemma recorded_None_iff: "recorded rows n = None \<longleftrightarrow> n \<notin> name ` set rows"
  by (auto simp: recorded_def find_None_iff)

lemma names_ledger_write:
  "map name (ledger_write dec u h rows)
     = (case dec of Insert \<Rightarrow> map name rows @ [u] | _ \<Rightarrow> map name rows)"
  by (cases dec) (auto simp: ledger_write_def)

lemma decide_Insert_iff: "decide ap u h = Insert \<longleftrightarrow> u \<notin> name ` set ap"
  by (auto simp: decide_recorded recorded_None_iff [symmetric] split: option.splits)

text \<open>
  The names of the ledger stay distinct as long as a name without a record is not
  processed twice.
\<close>

lemma apply_updates_names:
  assumes "apply_updates env ap us st = Inr st'"
    and "distinct (map name (ledger_rows (db st)))"
    and "name ` set (ledger_rows (db st)) \<subseteq> name ` set ap \<union> S"
    and "\<And>n. n \<in> set us \<Longrightarrow> n \<in> name ` set ap \<or> (n \<notin> S \<and> count_list us n = 1)"
  shows "distinct (map name (ledger_rows (db st')))"
  using assms
proof (induction us arbitrary: st S)
  case Nil
  then show ?case by simp
next
  case (Cons u us)
  from Cons.prems(1) obtain st1 where a: "apply_update env ap u st = Inr st1"
    and b: "apply_updates env ap us st1 = Inr st'"
    by (auto split: sum.splits)
  let ?dec = "decide ap u (digest_of env u)"
  have n1: "map name (ledger_rows (db st1))
      = (case ?dec of Insert \<Rightarrow> map name (ledger_rows (db st)) @ [u]
         | _ \<Rightarrow> map name (ledger_rows (db st)))"
    by (simp add: apply_update_ledger(1) [OF a] names_ledger_write)
  have d1: "distinct (map name (ledger_rows (db st1)))"
  proof (cases "?dec = Insert")
    case True
    then have "u \<notin> name ` set ap" by (simp add: decide_Insert_iff)
    with Cons.prems(4) [of u] have "u \<notin> S" by simp
    with \<open>u \<notin> name ` set ap\<close> Cons.prems(3) have "u \<notin> name ` set (ledger_rows (db st))" by blast
    with Cons.prems(2) n1 True show ?thesis by simp
  next
    case False
    with Cons.prems(2) n1 show ?thesis by (cases ?dec) simp_all
  qed
  have s1: "name ` set (ledger_rows (db st1)) \<subseteq> name ` set ap \<union> insert u S"
  proof -
    have "set (map name (ledger_rows (db st1))) \<subseteq> insert u (set (map name (ledger_rows (db st))))"
      unfolding n1 by (cases ?dec) auto
    then have "name ` set (ledger_rows (db st1))
        \<subseteq> insert u (name ` set (ledger_rows (db st)))" by simp
    with Cons.prems(3) show ?thesis by blast
  qed
  have c1: "n \<in> name ` set ap \<or> (n \<notin> insert u S \<and> count_list us n = 1)"
    if "n \<in> set us" for n
  proof (cases "n \<in> name ` set ap")
    case False
    with Cons.prems(4) [of n] that have k: "n \<notin> S" "count_list (u # us) n = 1" by simp_all
    have "count_list us n \<noteq> 0" using that by (simp add: count_list_0_iff)
    with k(2) have "n \<noteq> u" by auto
    with k show ?thesis by simp
  qed simp
  show ?case by (rule Cons.IH [OF b d1 s1 c1])
qed

lemma dry_run_ledger:
  assumes "\<not> doCommit env"
    and "checkEnvVars env = None" "manifest_json env = Some us"
    "readdirSync env = Some listing" "connect_ok env"
  shows "ledger_rows (db (final (main env d))) = ledger_rows d"
proof (cases "manage_ok env \<and> select_ok env \<and> begin_ok env")
  case False
  from main_prelude_rejected(3) [OF assms(2-5) False, of d] show ?thesis by simp
next
  case True
  then have ok: "manage_ok env" "select_ok env" "begin_ok env" by simp_all
  show ?thesis
  proof (cases "apply_updates env (ledger_rows d) (updates us) (state_at_begin d)")
    case (Inl x)
    obtain err st4 where x: "x = (err, st4)" by (cases x)
    have loop: "apply_updates env (ledger_rows d) (updates us) (state_at_begin d)
        = Inl (err, st4)"
      using Inl x by simp
    have tx: "tx_start st4 = Some (d\<lparr>db_updates := Some (ledger_rows d)\<rparr>)"
      using apply_updates_tx_Inl [OF loop] by (simp add: state_at_begin_simps)
    show ?thesis
      using main_Inl [OF assms(2-5) ok loop] tx
      by (simp add: exit_with_def pg_rollback_def say_def issue_def)
  next
    case (Inr st4)
    have tx: "tx_start st4 = Some (d\<lparr>db_updates := Some (ledger_rows d)\<rparr>)"
      using apply_updates_tx_Inr [OF Inr] by (simp add: state_at_begin_simps)
    show ?thesis
      using main_Inr [OF assms(2-5) ok Inr] assms(1) tx
      by (simp add: exit_with_def pg_rollback_def say_def issue_def printWarnings_def)
  qed
qed

lemma run_that_does_not_commit:
  assumes "\<not> (doCommit env \<and> exit_code (main env d) = 0)"
  shows "ledger_rows (db (final (main env d))) = ledger_rows d"
proof (cases "checkEnvVars env")
  case (Some key)
  then show ?thesis by (simp add: main_def exit_with_def say_def initial_state_def)
next
  case None
  show ?thesis
  proof (cases "manifest_json env")
    case m: None
    then show ?thesis
      using None by (simp add: main_def exit_with_def say_def initial_state_def Let_def)
  next
    case m: (Some us)
    show ?thesis
    proof (cases "readdirSync env")
      case r: None
      then show ?thesis
        using None m by (simp add: main_def exit_with_def say_def initial_state_def Let_def)
    next
      case r: (Some listing)
      show ?thesis
      proof (cases "connect_ok env")
        case False
        then show ?thesis
          using None m r
          by (simp add: main_def exit_with_def say_def issue_def initial_state_def)
      next
        case True
        show ?thesis
        proof (cases "doCommit env")
          case c: False
          from dry_run_ledger [OF c None m r True] show ?thesis .
        next
          case c: True
          show ?thesis
          proof (cases "manage_ok env \<and> select_ok env \<and> begin_ok env")
            case False
            from main_prelude_rejected(3) [OF None m r \<open>connect_ok env\<close> False, of d]
            show ?thesis by simp
          next
            case ok: True
            then have ok: "manage_ok env" "select_ok env" "begin_ok env" by simp_all
            show ?thesis
            proof (cases "apply_updates env (ledger_rows d) (updates us) (state_at_begin d)")
              case (Inl x)
              obtain err st4 where x: "x = (err, st4)" by (cases x)
              have loop: "apply_updates env (ledger_rows d) (updates us) (state_at_begin d)
                  = Inl (err, st4)" using Inl x by simp
              have tx: "tx_start st4 = Some (d\<lparr>db_updates := Some (ledger_rows d)\<rparr>)"
                using apply_updates_tx_Inl [OF loop] by (simp add: state_at_begin_simps)
              show ?thesis
                using main_Inl [OF None m r \<open>connect_ok env\<close> ok loop] tx
                by (simp add: exit_with_def pg_rollback_def say_def issue_def)
            next
              case (Inr st4)
              from main_exit_0I [OF None m r \<open>connect_ok env\<close> ok Inr] assms c
              show ?thesis by simp
            qed
          qed
        qed
      qed
    qed
  qed
qed

lemma count_one_split:
  assumes "count_list xs u = 1"
  shows "\<exists>as bs. xs = as @ u # bs \<and> u \<notin> set as \<and> u \<notin> set bs"
proof -
  have "u \<in> set xs" using assms by (metis count_list_0_iff zero_neq_one)
  then obtain as bs where x: "xs = as @ u # bs" "u \<notin> set as"
    by (meson split_list_first)
  have "count_list as u = 0" using x(2) by (simp add: count_list_0_iff)
  with assms x(1) have "count_list bs u = 0" by simp
  then have "u \<notin> set bs" by (simp add: count_list_0_iff)
  with x show ?thesis by blast
qed

lemma entry_calls_cases:
  "entry_calls env ap n = []
   \<or> (\<exists>q h. entry_calls env ap n = [Script q, UpdateRow h n])
   \<or> (\<exists>q h. entry_calls env ap n = [Script q, InsertRow n h] \<and> n \<notin> name ` set ap)"
proof (cases "readFileSync env n")
  case None
  then show ?thesis by (simp add: entry_calls_def)
next
  case (Some script)
  then show ?thesis
    using decide_Insert_iff [of ap n "sha256_hex env script"]
    by (cases "decide ap n (sha256_hex env script)") (simp_all add: entry_calls_def)
qed

lemma entry_calls_writes:
  "UpdateRow h u \<in> set (entry_calls env ap n) \<Longrightarrow> n = u"
  "InsertRow u h \<in> set (entry_calls env ap n) \<Longrightarrow> n = u \<and> u \<notin> name ` set ap"
  using entry_calls_cases [of env ap n] by auto

lemma calls_of_committed_run:
  assumes "doCommit env" "manifest_json env = Some us" "exit_code (main env d) = 0"
  shows "calls (final (main env d)) =
           [Connect, ManageDbUpdates, SelectDbUpdates, Begin]
           @ concat (map (entry_calls env (ledger_rows d)) (updates us)) @ [Commit]"
    and "\<exists>st4. apply_updates env (ledger_rows d) (updates us) (state_at_begin d) = Inr st4
           \<and> db (final (main env d)) = db st4"
proof -
  from main_exit_0D [OF assms(3)] assms(2) obtain listing st4 where
    e: "checkEnvVars env = None" "connect_ok env" "readdirSync env = Some listing"
    and ok: "manage_ok env" "select_ok env" "begin_ok env"
    and loop: "apply_updates env (ledger_rows d) (updates us) (state_at_begin d) = Inr st4"
    by auto
  note m = main_Inr [OF e(1) assms(2) e(3) e(2) ok loop]
  show "calls (final (main env d)) =
           [Connect, ManageDbUpdates, SelectDbUpdates, Begin]
           @ concat (map (entry_calls env (ledger_rows d)) (updates us)) @ [Commit]"
    using m assms(1) apply_updates_calls [OF loop]
    by (simp add: exit_with_def say_def printWarnings_def pg_commit_def issue_def
        state_at_begin_simps)
  have "db (final (main env d)) = db st4"
    using m assms(1)
    by (simp add: exit_with_def say_def printWarnings_def pg_commit_def issue_def)
  with loop show "\<exists>st4. apply_updates env (ledger_rows d) (updates us) (state_at_begin d) = Inr st4
           \<and> db (final (main env d)) = db st4" by blast
qed

lemma demo_drift_loop:
  assumes "readFileSync env = map_of [(js ''a'', js ''A'')]" "sha256_hex env = demo_digest"
    "run_sql env = demo_sql"
  shows "apply_updates env (ledger_rows drifted_db)
           (updates \<lparr>updates = [js ''a''], ignore = []\<rparr>) (state_at_begin drifted_db)
     = Inr \<lparr>db = \<lparr>objects = [js ''OLD'', js ''A''],
                 db_updates = Some [\<lparr>name = js ''a'', sha256 = js ''A''\<rparr>]\<rparr>,
          tx_start = Some drifted_db,
          calls = [Connect, ManageDbUpdates, SelectDbUpdates, Begin,
                   Script (js ''A''), UpdateRow (js ''A'') (js ''a'')],
          console = [Applied (js ''a'')], updateCounter = 1\<rparr>"
proof -
  have "js ''A'' \<noteq> js ''FAIL''" "js ''OLD'' \<noteq> js ''A''" by (simp_all add: js_def)
  then show ?thesis
    using assms
    by (simp add: run_defs state_at_begin_def demo_digest_def demo_sql_def drifted_db_def Let_def)
qed

lemma demo_drift_main:
  "main (demo_orphan True) drifted_db =
     exit_with 0
       (printWarnings \<lparr>updates = [js ''a''], ignore = []\<rparr> (js_sort [TABLE_file, js ''a''])
         (pg_commit \<lparr>db = \<lparr>objects = [js ''OLD'', js ''A''],
                 db_updates = Some [\<lparr>name = js ''a'', sha256 = js ''A''\<rparr>]\<rparr>,
          tx_start = Some drifted_db,
          calls = [Connect, ManageDbUpdates, SelectDbUpdates, Begin,
                   Script (js ''A''), UpdateRow (js ''A'') (js ''a'')],
          console = [Applied (js ''a'')], updateCounter = 1\<rparr>))"
proof -
  have l: "apply_updates (demo_orphan True) (ledger_rows drifted_db)
           (updates \<lparr>updates = [js ''a''], ignore = []\<rparr>) (state_at_begin drifted_db)
     = Inr \<lparr>db = \<lparr>objects = [js ''OLD'', js ''A''],
                 db_updates = Some [\<lparr>name = js ''a'', sha256 = js ''A''\<rparr>]\<rparr>,
          tx_start = Some drifted_db,
          calls = [Connect, ManageDbUpdates, SelectDbUpdates, Begin,
                   Script (js ''A''), UpdateRow (js ''A'') (js ''a'')],
          console = [Applied (js ''a'')], updateCounter = 1\<rparr>"
    by (rule demo_drift_loop) (simp_all add: demo_orphan_def demo_env_def)
  from main_Inr [OF demo_orphan_env(1-7) l] show ?thesis by (simp add: demo_orphan_env)
qed

section \<open>Facts about the two substitutions\<close>

lemma lazy_star_complete:
  "(\<forall>c\<in>set g. ok c) \<Longrightarrow> k t \<noteq> None \<Longrightarrow> lazy_star ok k (g @ t) \<noteq> None"
proof (induction g)
  case Nil
  then show ?case by (cases t) auto
next
  case (Cons c g)
  then have "lazy_star ok k (g @ t) \<noteq> None" by simp
  with Cons.prems show ?case by (auto split: option.splits)
qed

text \<open>
  A match of the trigger pattern is a piece of one line that begins and ends with a
  percent sign, and it is a match whatever follows it.
\<close>

lemma rxDefaultTrigger_match:
  assumes "rxDefaultTrigger s = Some x"
  shows "\<exists>m r. s = m @ r \<and> 2 \<le> length m \<and> hd m = 37 \<and> last m = 37
           \<and> (\<forall>c\<in>set m. \<not> is_line_terminator c)
           \<and> (\<forall>r'. rxDefaultTrigger (m @ r') \<noteq> None)"
proof -
  let ?L = "js ''%DEFAULT_TRIGGER(''"
  let ?k2 = "strip_prefix (js '')%'')"
  let ?k1 = "\<lambda>s2. case strip_prefix (js ''.'') s2 of
                    None \<Rightarrow> None | Some s3 \<Rightarrow> lazy_star rx_dot ?k2 s3"
  from assms obtain s1 where s1: "strip_prefix ?L s = Some s1"
    by (auto simp: rxDefaultTrigger_def split: option.splits)
  from assms s1 obtain g1 y where l1: "lazy_star rx_dot ?k1 s1 = Some (g1, y)"
    by (auto simp: rxDefaultTrigger_def split: option.splits)
  from lazy_star_SomeD [OF l1] obtain t1 where
    t1: "s1 = g1 @ t1" "\<forall>c\<in>set g1. rx_dot c" "?k1 t1 = Some y" by blast
  from t1(3) obtain s3 where s3: "strip_prefix (js ''.'') t1 = Some s3"
    and l2: "lazy_star rx_dot ?k2 s3 = Some y"
    by (auto split: option.splits)
  obtain g2 r where y: "y = (g2, r)" by (cases y)
  from lazy_star_SomeD [OF l2 [unfolded y]] obtain t2 where
    t2: "s3 = g2 @ t2" "\<forall>c\<in>set g2. rx_dot c" "?k2 t2 = Some r" by blast
  let ?m = "?L @ g1 @ js ''.'' @ g2 @ js '')%''"
  have s: "s = ?m @ r"
    using s1 t1(1) s3 t2(1,3) by (simp add: strip_prefix_iff)
  have lt: "\<forall>c\<in>set ?m. \<not> is_line_terminator c"
    using t1(2) t2(2) by (auto simp: rx_dot_def js_def is_line_terminator_def)
  have again: "rxDefaultTrigger (?m @ r') \<noteq> None" for r'
  proof -
    have k2: "?k2 (js '')%'' @ r') \<noteq> None" by (simp add: strip_prefix_iff)
    have "lazy_star rx_dot ?k2 (g2 @ js '')%'' @ r') \<noteq> None"
      using lazy_star_complete [of g2 rx_dot ?k2 "js '')%'' @ r'"] t2(2) k2 by blast
    moreover have "strip_prefix (js ''.'') (js ''.'' @ g2 @ js '')%'' @ r')
        = Some (g2 @ js '')%'' @ r')" by (simp add: strip_prefix_iff)
    ultimately have "?k1 (js ''.'' @ g2 @ js '')%'' @ r') \<noteq> None" by simp
    then have "lazy_star rx_dot ?k1 (g1 @ js ''.'' @ g2 @ js '')%'' @ r') \<noteq> None"
      using lazy_star_complete [of g1 rx_dot ?k1 "js ''.'' @ g2 @ js '')%'' @ r'"] t1(2)
      by blast
    moreover have "strip_prefix ?L (?m @ r') = Some (g1 @ js ''.'' @ g2 @ js '')%'' @ r')"
      by (simp add: strip_prefix_iff)
    ultimately show ?thesis
      by (auto simp: rxDefaultTrigger_def split: option.splits)
  qed
  have "2 \<le> length ?m" "hd ?m = 37" "last ?m = 37" by (simp_all add: js_def)
  with s lt again show ?thesis by blast
qed

text \<open>
  Putting a text without a percent sign and with a line break in place of a piece of the
  input creates no match of the trigger pattern.
\<close>

lemma no_new_trigger_match:
  assumes old: "\<And>i. rxDefaultTrigger (drop i (a @ p @ c)) = None"
    and pc: "37 \<notin> set C" and nl: "\<exists>x\<in>set C. is_line_terminator x"
  shows "rxDefaultTrigger (drop i (a @ C @ c)) = None"
proof (cases "rxDefaultTrigger (drop i (a @ C @ c))")
  case None
  then show ?thesis .
next
  case (Some x)
  from rxDefaultTrigger_match [OF Some] obtain m r where
    m: "drop i (a @ C @ c) = m @ r" "2 \<le> length m" "hd m = 37" "last m = 37"
      "\<forall>x\<in>set m. \<not> is_line_terminator x" "\<And>r'. rxDefaultTrigger (m @ r') \<noteq> None"
    by blast
  have mne: "m \<noteq> []" using m(2) by auto
  consider "length a + length C \<le> i" | "length a \<le> i" "i < length a + length C"
    | "i < length a" by linarith
  then have False
  proof cases
    case 1
    define j where "j = length a + length p + (i - length a - length C)"
    have "drop j (a @ p @ c) = drop i (a @ C @ c)"
      using 1 by (simp add: j_def add.commute)
    with old [of j] Some show False by (metis option.distinct(1))
  next
    case 2
    then have d: "drop i (a @ C @ c) = drop (i - length a) C @ c"
      and ne: "drop (i - length a) C \<noteq> []" by simp_all
    have "hd (drop i (a @ C @ c)) = hd (drop (i - length a) C)" using d ne by simp
    moreover have "hd (drop (i - length a) C) \<in> set C"
      using ne by (meson hd_in_set in_set_dropD)
    moreover have "hd (drop i (a @ C @ c)) = 37" using m(1,3) mne by simp
    ultimately show False using pc by simp
  next
    case 3
    let ?u = "drop i a"
    have d: "m @ r = ?u @ (C @ c)" using m(1) 3 by simp
    from d obtain w where
      w: "m = ?u @ w \<and> w @ r = C @ c \<or> m @ w = ?u \<and> r = w @ C @ c"
      using append_eq_append_conv2 [of m r ?u "C @ c"] by blast
    then show False
    proof
      assume "m @ w = ?u \<and> r = w @ C @ c"
      then have "drop i (a @ p @ c) = m @ (w @ p @ c)" using 3 by simp
      with old [of i] m(6) [of "w @ p @ c"] show False by simp
    next
      assume a1: "m = ?u @ w \<and> w @ r = C @ c"
      then have wr: "w @ r = C @ c" and mu: "m = ?u @ w" by simp_all
      from wr obtain v where
        v: "w = C @ v \<and> v @ r = c \<or> w @ v = C \<and> r = v @ c"
        using append_eq_append_conv2 [of w r C c] by blast
      then show False
      proof
        assume "w = C @ v \<and> v @ r = c"
        then have "set C \<subseteq> set m" using mu by auto
        with nl m(5) show False by blast
      next
        assume b: "w @ v = C \<and> r = v @ c"
        show False
        proof (cases "w = []")
          case True
          then have "drop i (a @ p @ c) = m @ (p @ c)" using mu 3 by simp
          with old [of i] m(6) [of "p @ c"] show False by simp
        next
          case False
          then have "last m = last w" using mu by simp
          moreover have "last w \<in> set C" using False b by (metis Un_iff last_in_set set_append)
          ultimately show False using m(4) pc by simp
        qed
      qed
    qed
  qed
  then show ?thesis ..
qed

lemma DEFAULT_COLUMNS_TEXT_line_break: "\<exists>x\<in>set DEFAULT_COLUMNS_TEXT. is_line_terminator x"
proof -
  have "10 \<in> set DEFAULT_COLUMNS_TEXT" by (simp add: DEFAULT_COLUMNS_TEXT_def js_def)
  then show ?thesis by (auto simp: is_line_terminator_def)
qed

lemma inject_columns_keeps_no_match:
  assumes "regex_search rxDefaultTrigger q = None"
  shows "regex_search rxDefaultTrigger (inject_columns q) = None"
proof (cases "regex_search (strip_prefix DEFAULT_COLUMNS_PLACEHOLDER) q")
  case None
  with assms show ?thesis by (simp add: inject_columns_def replace_string_def)
next
  case (Some x)
  obtain a c where x: "x = (a, c)" by (cases x)
  from regex_search_SomeD [OF Some [unfolded x]] have q: "q = a @ DEFAULT_COLUMNS_PLACEHOLDER @ c"
    by (auto simp: strip_prefix_iff)
  have ic: "inject_columns q = a @ DEFAULT_COLUMNS_TEXT @ c"
    using Some x
    by (simp add: inject_columns_def replace_string_def get_substitution_no_dollar
        DEFAULT_COLUMNS_TEXT_no_dollar)
  have old: "rxDefaultTrigger (drop i (a @ DEFAULT_COLUMNS_PLACEHOLDER @ c)) = None" for i
  proof (cases "i \<le> length q")
    case True
    with assms show ?thesis by (simp add: regex_search_None_iff q)
  next
    case False
    then have "drop i (a @ DEFAULT_COLUMNS_PLACEHOLDER @ c) = []" using q by simp
    moreover have "rxDefaultTrigger [] = None" by (simp add: rxDefaultTrigger_def js_def)
    ultimately show ?thesis by simp
  qed
  have "rxDefaultTrigger (drop i (a @ DEFAULT_COLUMNS_TEXT @ c)) = None" for i
    by (rule no_new_trigger_match [OF old DEFAULT_COLUMNS_TEXT_no_percent
          DEFAULT_COLUMNS_TEXT_line_break])
  then show ?thesis by (simp add: ic regex_search_None_iff)
qed

lemma regex_search_later:
  assumes "regex_search m s = Some (pre, r)" "m s = None"
  shows "pre \<noteq> [] \<and> hd pre = hd s"
proof -
  from regex_search_SomeD [OF assms(1)] obtain post where
    p: "s = pre @ post" "m post = Some r" by blast
  with assms(2) have "pre \<noteq> []" by auto
  with p(1) show ?thesis by simp
qed

lemma hd_inject_trigger:
  assumes "rxDefaultTrigger s = None" "s \<noteq> []"
  shows "hd (inject_trigger s) = hd s"
proof (cases "regex_search rxDefaultTrigger s")
  case None
  then show ?thesis by (simp add: inject_trigger_def)
next
  case (Some x)
  obtain pre g1 g2 post where x: "x = (pre, g1, g2, post)" by (cases x)
  from regex_search_later [OF Some [unfolded x] assms(1)] Some x show ?thesis
    by (simp add: inject_trigger_def)
qed

lemma hd_inject_columns:
  assumes "strip_prefix DEFAULT_COLUMNS_PLACEHOLDER s = None" "s \<noteq> []"
  shows "hd (inject_columns s) = hd s"
proof (cases "regex_search (strip_prefix DEFAULT_COLUMNS_PLACEHOLDER) s")
  case None
  then show ?thesis by (simp add: inject_columns_def replace_string_def)
next
  case (Some x)
  obtain pre post where x: "x = (pre, post)" by (cases x)
  from regex_search_later [OF Some [unfolded x] assms(1)] Some x show ?thesis
    by (simp add: inject_columns_def replace_string_def)
qed

lemma adjacent_columns_first:
  "hd (inject_trigger (inject_columns adjacent_placeholders)) = 45"
proof -
  let ?tail = "js ''DEFAULT_TRIGGER(a.b)%''"
  have q: "adjacent_placeholders = [] @ DEFAULT_COLUMNS_PLACEHOLDER @ ?tail"
    by (simp add: adjacent_placeholders_def DEFAULT_COLUMNS_PLACEHOLDER_def js_def)
  have "regex_search (strip_prefix DEFAULT_COLUMNS_PLACEHOLDER)
          ([] @ DEFAULT_COLUMNS_PLACEHOLDER @ ?tail) = Some ([], ?tail)"
    by (rule regex_search_hit) (simp_all add: strip_prefix_iff)
  then have ic: "inject_columns adjacent_placeholders = DEFAULT_COLUMNS_TEXT @ ?tail"
    by (simp add: q inject_columns_def replace_string_def get_substitution_no_dollar
        DEFAULT_COLUMNS_TEXT_no_dollar)
  have h: "DEFAULT_COLUMNS_TEXT \<noteq> []" "hd DEFAULT_COLUMNS_TEXT = 45"
    by (simp_all add: DEFAULT_COLUMNS_TEXT_def js_def)
  have n: "rxDefaultTrigger (DEFAULT_COLUMNS_TEXT @ ?tail) = None"
  proof (cases "rxDefaultTrigger (DEFAULT_COLUMNS_TEXT @ ?tail)")
    case (Some x)
    from rxDefaultTrigger_hd [OF this] obtain t where
      "DEFAULT_COLUMNS_TEXT @ ?tail = 37 # t" by blast
    then have "hd (DEFAULT_COLUMNS_TEXT @ ?tail) = 37" by simp
    moreover have "hd (DEFAULT_COLUMNS_TEXT @ ?tail) = 45" using h by simp
    ultimately show ?thesis by simp
  qed simp
  from hd_inject_trigger [OF n] h show ?thesis by (simp add: ic)
qed

lemma adjacent_trigger_first:
  "hd (inject_columns (inject_trigger adjacent_placeholders)) = 37"
proof -
  let ?pre = "js ''%DEFAULT_COLUMNS''"
  have rs: "regex_search rxDefaultTrigger adjacent_placeholders
      = Some (?pre, js ''a'', js ''b'', [])"
    by (simp add: adjacent_placeholders_def rxDefaultTrigger_def js_def rx_dot_def
        is_line_terminator_def)
  have t: "DEFAULT_TRIGGER_TEXT = 45 # 45 # drop 2 DEFAULT_TRIGGER_TEXT"
    by (simp add: DEFAULT_TRIGGER_TEXT_def js_def)
  let ?M = "js ''%DEFAULT_TRIGGER('' @ js ''a'' @ js ''.'' @ js ''b'' @ js '')%''"
  define G where
    "G = get_substitution ?M ?pre [] [js ''a'', js ''b''] (45 # drop 2 DEFAULT_TRIGGER_TEXT)"
  have "get_substitution ?M ?pre [] [js ''a'', js ''b'']
          (45 # 45 # drop 2 DEFAULT_TRIGGER_TEXT) = 45 # G"
    by (simp add: G_def)
  then have G: "get_substitution ?M ?pre [] [js ''a'', js ''b''] DEFAULT_TRIGGER_TEXT = 45 # G"
    using t by simp
  have y: "inject_trigger adjacent_placeholders = ?pre @ 45 # G"
    by (simp add: inject_trigger_def rs G)
  have "strip_prefix DEFAULT_COLUMNS_PLACEHOLDER (?pre @ 45 # G) = None"
    by (simp add: DEFAULT_COLUMNS_PLACEHOLDER_def js_def)
  from hd_inject_columns [OF this] show ?thesis by (simp add: y js_def)
qed

lemma trigger_text_any:
  "get_substitution m bf af [g1, g2] DEFAULT_TRIGGER_TEXT = trigger_text g1 g2"
  by (simp add: trigger_text_def DEFAULT_TRIGGER_TEXT_def js_def is_digit_def)

lemma trigger_text_props:
  "trigger_text g1 g2 \<noteq> []" "hd (trigger_text g1 g2) = 45"
  "37 \<notin> set g1 \<Longrightarrow> 37 \<notin> set g2 \<Longrightarrow> 37 \<notin> set (trigger_text g1 g2)"
  by (simp_all add: trigger_text_def DEFAULT_TRIGGER_TEXT_def js_def is_digit_def)

lemma lazy_star_SomeD2:
  "lazy_star ok k s = Some (g, r) \<Longrightarrow>
     \<exists>t. s = g @ t \<and> (\<forall>c\<in>set g. ok c) \<and> k t = Some r
         \<and> (\<forall>i<length g. k (drop i g @ t) = None)"
proof (induction s arbitrary: g)
  case Nil
  then show ?case by (auto split: option.splits)
next
  case (Cons c cs)
  show ?case
  proof (cases "k (c # cs)")
    case (Some r')
    with Cons.prems show ?thesis by auto
  next
    case None
    with Cons.prems obtain g' where
      g: "ok c" "lazy_star ok k cs = Some (g', r)" "g = c # g'"
      by (auto split: option.splits if_splits)
    from Cons.IH [OF g(2)] obtain t where
      t: "cs = g' @ t" "\<forall>c\<in>set g'. ok c" "k t = Some r"
        "\<forall>i<length g'. k (drop i g' @ t) = None"
      by blast
    have "\<forall>i<length g. k (drop i g @ t) = None"
    proof (intro allI impI)
      fix i assume "i < length g"
      then show "k (drop i g @ t) = None"
        using None t(1,4) g(3) by (cases i) auto
    qed
    with g t show ?thesis by auto
  qed
qed

lemma lazy_star_hit:
  assumes "\<forall>c\<in>set g. ok c" "k t = Some r" "\<forall>i<length g. k (drop i g @ t) = None"
  shows "lazy_star ok k (g @ t) = Some (g, r)"
  using assms
proof (induction g)
  case Nil
  then show ?case by (cases t) auto
next
  case (Cons c g)
  have a: "k (c # g @ t) = None" using Cons.prems(3) [rule_format, of 0] by simp
  have b: "\<forall>i<length g. k (drop i g @ t) = None"
  proof (intro allI impI)
    fix i assume "i < length g"
    then show "k (drop i g @ t) = None"
      using Cons.prems(3) [rule_format, of "Suc i"] by simp
  qed
  have "lazy_star ok k (g @ t) = Some (g, r)"
    using Cons.IH Cons.prems(1,2) b by simp
  with a Cons.prems(1) show ?case by simp
qed

lemma close_later:
  assumes "d \<noteq> []"
  shows "strip_prefix (js '')%'') (d @ js '')%'' @ r') = None
           \<longleftrightarrow> strip_prefix (js '')%'') (d @ js '')%'' @ r) = None"
proof (cases d)
  case Nil
  with assms show ?thesis by simp
next
  case (Cons x d')
  then show ?thesis by (cases d') (simp_all add: js_def)
qed

text \<open>
  The groups of a match are decided by the matched text: the same text matches with the
  same groups whatever follows it.
\<close>

lemma rxDefaultTrigger_exact:
  assumes "rxDefaultTrigger s = Some (g1, g2, r)"
  shows "s = trigger_placeholder g1 g2 @ r"
    and "rxDefaultTrigger (trigger_placeholder g1 g2 @ r') = Some (g1, g2, r')"
proof -
  let ?L = "js ''%DEFAULT_TRIGGER(''"
  let ?k2 = "strip_prefix (js '')%'')"
  let ?k1 = "\<lambda>s2. case strip_prefix (js ''.'') s2 of
                    None \<Rightarrow> None | Some s3 \<Rightarrow> lazy_star rx_dot ?k2 s3"
  from assms obtain s1 where s1: "strip_prefix ?L s = Some s1"
    by (auto simp: rxDefaultTrigger_def split: option.splits)
  from assms s1 have l1: "lazy_star rx_dot ?k1 s1 = Some (g1, (g2, r))"
    by (auto simp: rxDefaultTrigger_def split: option.splits)
  from lazy_star_SomeD2 [OF l1] obtain t1 where
    t1: "s1 = g1 @ t1" "\<forall>c\<in>set g1. rx_dot c" "?k1 t1 = Some (g2, r)"
      "\<forall>i<length g1. ?k1 (drop i g1 @ t1) = None" by blast
  from t1(3) obtain s3 where s3: "strip_prefix (js ''.'') t1 = Some s3"
    and l2: "lazy_star rx_dot ?k2 s3 = Some (g2, r)"
    by (auto split: option.splits)
  from lazy_star_SomeD2 [OF l2] obtain t2 where
    t2: "s3 = g2 @ t2" "\<forall>c\<in>set g2. rx_dot c" "?k2 t2 = Some r"
      "\<forall>i<length g2. ?k2 (drop i g2 @ t2) = None" by blast
  have t2': "t2 = js '')%'' @ r" using t2(3) by (simp add: strip_prefix_iff)
  have t1': "t1 = js ''.'' @ g2 @ js '')%'' @ r"
    using s3 t2(1) t2' by (simp add: strip_prefix_iff)
  show "s = trigger_placeholder g1 g2 @ r"
    using s1 t1(1) t1' by (simp add: strip_prefix_iff trigger_placeholder_def)
  have k2': "?k2 (js '')%'' @ r') = Some r'" by (simp add: strip_prefix_iff)
  have none2: "\<forall>i<length g2. ?k2 (drop i g2 @ js '')%'' @ r') = None"
  proof (intro allI impI)
    fix i assume i: "i < length g2"
    then have "drop i g2 \<noteq> []" by simp
    from close_later [OF this, of r' r] t2(4) [rule_format, OF i] t2'
    show "?k2 (drop i g2 @ js '')%'' @ r') = None" by simp
  qed
  have in2: "lazy_star rx_dot ?k2 (g2 @ js '')%'' @ r') = Some (g2, r')"
    using lazy_star_hit [of g2 rx_dot ?k2 "js '')%'' @ r'" r'] t2(2) k2' none2 by blast
  have k1: "?k1 (js ''.'' @ g2 @ js '')%'' @ r') = Some (g2, r')"
  proof -
    have "strip_prefix (js ''.'') (js ''.'' @ g2 @ js '')%'' @ r')
        = Some (g2 @ js '')%'' @ r')" by (simp add: strip_prefix_iff)
    with in2 show ?thesis by simp
  qed
  have none1: "\<forall>i<length g1. ?k1 (drop i g1 @ js ''.'' @ g2 @ js '')%'' @ r') = None"
  proof -
    show ?thesis
    proof (intro allI impI)
      fix i assume i: "i < length g1"
      then obtain x d where d: "drop i g1 = x # d" by (cases "drop i g1") auto
      have xd: "set (x # d) \<subseteq> set g1" by (metis d set_drop_subset)
      have "x \<noteq> 46"
      proof
        assume x: "x = 46"
        have dots: "\<forall>c\<in>set (d @ js ''.'' @ g2). rx_dot c"
          using xd t1(2) t2(2) by (auto simp: js_def rx_dot_def is_line_terminator_def)
        have "?k2 (js '')%'' @ r) \<noteq> None" by (simp add: strip_prefix_iff)
        with lazy_star_complete [of "d @ js ''.'' @ g2" rx_dot ?k2 "js '')%'' @ r"] dots
        have "lazy_star rx_dot ?k2 ((d @ js ''.'' @ g2) @ js '')%'' @ r) \<noteq> None" by blast
        moreover have "?k1 (drop i g1 @ t1)
            = lazy_star rx_dot ?k2 ((d @ js ''.'' @ g2) @ js '')%'' @ r)"
          by (simp add: d x t1' js_def)
        ultimately show False using t1(4) [rule_format, OF i] by simp
      qed
      then show "?k1 (drop i g1 @ js ''.'' @ g2 @ js '')%'' @ r') = None"
        by (simp add: d js_def)
    qed
  qed
  have out: "lazy_star rx_dot ?k1 (g1 @ js ''.'' @ g2 @ js '')%'' @ r') = Some (g1, (g2, r'))"
    using lazy_star_hit [of g1 rx_dot ?k1 "js ''.'' @ g2 @ js '')%'' @ r'" "(g2, r')"]
      t1(2) k1 none1 by blast
  have "strip_prefix ?L (trigger_placeholder g1 g2 @ r')
      = Some (g1 @ js ''.'' @ g2 @ js '')%'' @ r')"
    by (simp add: strip_prefix_iff trigger_placeholder_def)
  with out show "rxDefaultTrigger (trigger_placeholder g1 g2 @ r') = Some (g1, g2, r')"
    by (simp add: rxDefaultTrigger_def)
qed

lemma strip_prefix_None_take: "strip_prefix p s = None \<longleftrightarrow> take (length p) s \<noteq> p"
proof -
  have "(\<exists>r. s = p @ r) \<longleftrightarrow> take (length p) s = p"
  proof
    assume "take (length p) s = p"
    then have "s = p @ drop (length p) s" by (metis append_take_drop_id)
    then show "\<exists>r. s = p @ r" ..
  qed auto
  then show ?thesis unfolding strip_prefix_None_iff by blast
qed

lemma no_new_trigger_match_at:
  assumes o1: "i < length a \<Longrightarrow> rxDefaultTrigger (drop i (a @ p @ c)) = None"
    and o2: "length a + length C \<le> i \<Longrightarrow>
               rxDefaultTrigger (drop (i - length a - length C) c) = None"
    and pc: "37 \<notin> set C" and nl: "\<exists>x\<in>set C. is_line_terminator x"
  shows "rxDefaultTrigger (drop i (a @ C @ c)) = None"
proof (cases "rxDefaultTrigger (drop i (a @ C @ c))")
  case None
  then show ?thesis .
next
  case (Some x)
  from rxDefaultTrigger_match [OF Some] obtain m r where
    m: "drop i (a @ C @ c) = m @ r" "2 \<le> length m" "hd m = 37" "last m = 37"
      "\<forall>x\<in>set m. \<not> is_line_terminator x" "\<And>r'. rxDefaultTrigger (m @ r') \<noteq> None"
    by blast
  have mne: "m \<noteq> []" using m(2) by auto
  consider "length a + length C \<le> i" | "length a \<le> i" "i < length a + length C"
    | "i < length a" by linarith
  then have False
  proof cases
    case 1
    have "drop (i - length a - length C) c = drop i (a @ C @ c)"
      using 1 by (simp add: add.commute)
    with o2 [OF 1] Some show False by (metis option.distinct(1))
  next
    case 2
    then have d: "drop i (a @ C @ c) = drop (i - length a) C @ c"
      and ne: "drop (i - length a) C \<noteq> []" by simp_all
    have "hd (drop i (a @ C @ c)) = hd (drop (i - length a) C)" using d ne by simp
    moreover have "hd (drop (i - length a) C) \<in> set C"
      using ne by (meson hd_in_set in_set_dropD)
    moreover have "hd (drop i (a @ C @ c)) = 37" using m(1,3) mne by simp
    ultimately show False using pc by simp
  next
    case 3
    let ?u = "drop i a"
    have d: "m @ r = ?u @ (C @ c)" using m(1) 3 by simp
    from d obtain w where
      w: "m = ?u @ w \<and> w @ r = C @ c \<or> m @ w = ?u \<and> r = w @ C @ c"
      using append_eq_append_conv2 [of m r ?u "C @ c"] by blast
    then show False
    proof
      assume "m @ w = ?u \<and> r = w @ C @ c"
      then have "drop i (a @ p @ c) = m @ (w @ p @ c)" using 3 by simp
      with o1 [OF 3] m(6) [of "w @ p @ c"] show False by simp
    next
      assume a1: "m = ?u @ w \<and> w @ r = C @ c"
      then have wr: "w @ r = C @ c" and mu: "m = ?u @ w" by simp_all
      from wr obtain v where
        v: "w = C @ v \<and> v @ r = c \<or> w @ v = C \<and> r = v @ c"
        using append_eq_append_conv2 [of w r C c] by blast
      then show False
      proof
        assume "w = C @ v \<and> v @ r = c"
        then have "set C \<subseteq> set m" using mu by auto
        with nl m(5) show False by blast
      next
        assume b: "w @ v = C \<and> r = v @ c"
        show False
        proof (cases "w = []")
          case True
          then have "drop i (a @ p @ c) = m @ (p @ c)" using mu 3 by simp
          with o1 [OF 3] m(6) [of "p @ c"] show False by simp
        next
          case False
          then have "last m = last w" using mu by simp
          moreover have "last w \<in> set C" using False b by (metis Un_iff last_in_set set_append)
          ultimately show False using m(4) pc by simp
        qed
      qed
    qed
  qed
  then show ?thesis ..
qed

text \<open>
  Putting a text in place of a piece of the input creates no occurrence of a literal when
  the text does not hold the first unit of the literal and does not begin with one of
  its units.
\<close>

lemma no_new_placeholder_at:
  assumes o1: "i < length a \<Longrightarrow> strip_prefix P (drop i (a @ M @ c)) = None"
    and o2: "length a + length G \<le> i \<Longrightarrow> strip_prefix P (drop (i - length a - length G) c) = None"
    and G: "G \<noteq> []" "hd G \<notin> set P" and P: "P \<noteq> []" "hd P \<notin> set G"
  shows "strip_prefix P (drop i (a @ G @ c)) = None"
proof (cases "strip_prefix P (drop i (a @ G @ c))")
  case None
  then show ?thesis .
next
  case (Some r)
  then have e: "drop i (a @ G @ c) = P @ r" by (simp add: strip_prefix_iff)
  consider "length a + length G \<le> i" | "length a \<le> i" "i < length a + length G"
    | "i < length a" by linarith
  then have False
  proof cases
    case 1
    have "drop (i - length a - length G) c = drop i (a @ G @ c)"
      using 1 by (simp add: add.commute)
    with o2 [OF 1] Some show False by (metis option.distinct(1))
  next
    case 2
    then have d: "drop i (a @ G @ c) = drop (i - length a) G @ c"
      and ne: "drop (i - length a) G \<noteq> []" by simp_all
    have "hd (drop i (a @ G @ c)) = hd (drop (i - length a) G)" using d ne by simp
    moreover have "hd (drop (i - length a) G) \<in> set G"
      using ne by (meson hd_in_set in_set_dropD)
    moreover have "hd (drop i (a @ G @ c)) = hd P" using e P(1) by simp
    ultimately show False using P(2) by simp
  next
    case 3
    let ?u = "drop i a"
    have d: "P @ r = ?u @ (G @ c)" using e 3 by simp
    from d obtain w where
      w: "P = ?u @ w \<and> w @ r = G @ c \<or> P @ w = ?u \<and> r = w @ G @ c"
      using append_eq_append_conv2 [of P r ?u "G @ c"] by blast
    then show False
    proof
      assume "P @ w = ?u \<and> r = w @ G @ c"
      then have "drop i (a @ M @ c) = P @ (w @ M @ c)" using 3 by simp
      with o1 [OF 3] show False by (simp add: strip_prefix_None_iff)
    next
      assume a1: "P = ?u @ w \<and> w @ r = G @ c"
      show False
      proof (cases "w = []")
        case True
        with a1 have "drop i (a @ M @ c) = P @ (M @ c)" using 3 by simp
        with o1 [OF 3] show False by (simp add: strip_prefix_None_iff)
      next
        case False
        have "hd (w @ r) = hd (G @ c)" using a1 by simp
        then have "hd w = hd G" using False G(1) by simp
        moreover have "hd w \<in> set P" using a1 False by (metis Un_iff hd_in_set set_append)
        ultimately show False using G(2) by simp
      qed
    qed
  qed
  then show ?thesis ..
qed

lemma placeholder_units:
  "DEFAULT_COLUMNS_PLACEHOLDER \<noteq> []" "hd DEFAULT_COLUMNS_PLACEHOLDER = 37"
  "45 \<notin> set DEFAULT_COLUMNS_PLACEHOLDER" "length DEFAULT_COLUMNS_PLACEHOLDER = 17"
  by (simp_all add: DEFAULT_COLUMNS_PLACEHOLDER_def js_def)

lemma inject_columns_at:
  assumes "regex_search (strip_prefix DEFAULT_COLUMNS_PLACEHOLDER) q = Some (a, b)"
  shows "q = a @ DEFAULT_COLUMNS_PLACEHOLDER @ b"
    and "inject_columns q = a @ DEFAULT_COLUMNS_TEXT @ b"
    and "i < length a \<Longrightarrow> strip_prefix DEFAULT_COLUMNS_PLACEHOLDER (drop i q) = None"
proof -
  from regex_search_SomeD [OF assms] obtain post where
    p: "q = a @ post" "strip_prefix DEFAULT_COLUMNS_PLACEHOLDER post = Some b"
      "\<forall>i<length a. strip_prefix DEFAULT_COLUMNS_PLACEHOLDER (drop i q) = None"
    by (elim exE conjE)
  from p(2) have "post = DEFAULT_COLUMNS_PLACEHOLDER @ b" by (simp only: strip_prefix_iff)
  with p(1) show "q = a @ DEFAULT_COLUMNS_PLACEHOLDER @ b" by (simp only:)
  have "get_substitution DEFAULT_COLUMNS_PLACEHOLDER a b [] DEFAULT_COLUMNS_TEXT
      = DEFAULT_COLUMNS_TEXT"
    by (rule get_substitution_no_dollar [OF DEFAULT_COLUMNS_TEXT_no_dollar])
  then show "inject_columns q = a @ DEFAULT_COLUMNS_TEXT @ b"
    unfolding inject_columns_def replace_string_def assms by simp
  show "i < length a \<Longrightarrow> strip_prefix DEFAULT_COLUMNS_PLACEHOLDER (drop i q) = None"
    using p(3) by (simp only:)
qed


lemma inject_trigger_at:
  assumes "regex_search rxDefaultTrigger q = Some (a, g1, g2, b)"
  shows "q = a @ trigger_placeholder g1 g2 @ b"
    and "inject_trigger q = a @ trigger_text g1 g2 @ b"
    and "i < length a \<Longrightarrow> rxDefaultTrigger (drop i q) = None"
    and "rxDefaultTrigger (trigger_placeholder g1 g2 @ r') = Some (g1, g2, r')"
proof -
  from regex_search_SomeD [OF assms] obtain post where
    p: "q = a @ post" "rxDefaultTrigger post = Some (g1, g2, b)"
      "\<forall>i<length a. rxDefaultTrigger (drop i q) = None"
    by (elim exE conjE)
  from rxDefaultTrigger_exact(1) [OF p(2)] p(1)
  show "q = a @ trigger_placeholder g1 g2 @ b" by (simp only:)
  show "inject_trigger q = a @ trigger_text g1 g2 @ b"
    unfolding inject_trigger_def assms by (simp add: trigger_text_any)
  show "i < length a \<Longrightarrow> rxDefaultTrigger (drop i q) = None" using p(3) by (simp only:)
  show "rxDefaultTrigger (trigger_placeholder g1 g2 @ r') = Some (g1, g2, r')"
    by (rule rxDefaultTrigger_exact(2) [OF p(2)])
qed


lemma trigger_search_at:
  assumes m: "rxDefaultTrigger (trigger_placeholder g1 g2 @ b) = Some (g1, g2, b)"
    and n: "\<forall>i<length a. rxDefaultTrigger (drop i (a @ trigger_placeholder g1 g2 @ b)) = None"
  shows "inject_trigger (a @ trigger_placeholder g1 g2 @ b) = a @ trigger_text g1 g2 @ b"
proof -
  note h = regex_search_hit [where m = rxDefaultTrigger and pre = a
      and post = "trigger_placeholder g1 g2 @ b" and r = "(g1, g2, b)"]
  have "regex_search rxDefaultTrigger (a @ trigger_placeholder g1 g2 @ b)
      = Some (a, g1, g2, b)"
    by (rule h [OF m n])
  then show ?thesis
    unfolding inject_trigger_def by (simp add: trigger_text_any)
qed

lemma columns_search_at:
  assumes n: "\<forall>i<length a.
      strip_prefix DEFAULT_COLUMNS_PLACEHOLDER (drop i (a @ DEFAULT_COLUMNS_PLACEHOLDER @ b)) = None"
  shows "inject_columns (a @ DEFAULT_COLUMNS_PLACEHOLDER @ b) = a @ DEFAULT_COLUMNS_TEXT @ b"
proof -
  have m: "strip_prefix DEFAULT_COLUMNS_PLACEHOLDER (DEFAULT_COLUMNS_PLACEHOLDER @ b) = Some b"
    by (simp only: strip_prefix_iff)
  note h = regex_search_hit [where m = "strip_prefix DEFAULT_COLUMNS_PLACEHOLDER" and pre = a
      and post = "DEFAULT_COLUMNS_PLACEHOLDER @ b" and r = b]
  have s: "regex_search (strip_prefix DEFAULT_COLUMNS_PLACEHOLDER)
      (a @ DEFAULT_COLUMNS_PLACEHOLDER @ b) = Some (a, b)"
    by (rule h [OF m n])
  have "get_substitution DEFAULT_COLUMNS_PLACEHOLDER a b [] DEFAULT_COLUMNS_TEXT
      = DEFAULT_COLUMNS_TEXT"
    by (rule get_substitution_no_dollar [OF DEFAULT_COLUMNS_TEXT_no_dollar])
  then show ?thesis
    unfolding inject_columns_def replace_string_def s by simp
qed

lemma columns_before_trigger:
  assumes P: "regex_search (strip_prefix DEFAULT_COLUMNS_PLACEHOLDER) q = Some (a, b)"
    and T: "regex_search rxDefaultTrigger q = Some (a', g1, g2, b')"
    and len: "length a + length DEFAULT_COLUMNS_PLACEHOLDER \<le> length a'"
  shows "inject_trigger (inject_columns q) = inject_columns (inject_trigger q)"
proof -
  let ?P = DEFAULT_COLUMNS_PLACEHOLDER
  let ?C = DEFAULT_COLUMNS_TEXT
  let ?M = "trigger_placeholder g1 g2"
  let ?TT = "trigger_text g1 g2"
  note p = inject_columns_at [OF P]
  note t = inject_trigger_at [OF T]
  obtain b1 where b1: "a' = a @ ?P @ b1" "b = b1 @ ?M @ b'"
  proof -
    have e: "(a @ ?P) @ b = a' @ (?M @ b')" using p(1) t(1) by simp
    then obtain us where
      us: "a @ ?P = a' @ us \<and> us @ b = ?M @ b' \<or> (a @ ?P) @ us = a' \<and> b = us @ ?M @ b'"
      using append_eq_append_conv2 [of "a @ ?P" b a' "?M @ b'"] by blast
    then show thesis
    proof
      assume x: "a @ ?P = a' @ us \<and> us @ b = ?M @ b'"
      then have "length (a @ ?P) = length (a' @ us)" by simp
      with len have "us = []" by simp
      with x have "a' = a @ ?P @ []" "b = [] @ ?M @ b'" by simp_all
      then show thesis by (rule that)
    next
      assume "(a @ ?P) @ us = a' \<and> b = us @ ?M @ b'"
      then have "a' = a @ ?P @ us" "b = us @ ?M @ b'" by simp_all
      then show thesis by (rule that)
    qed
  qed
  have q1: "q = a @ ?P @ b1 @ ?M @ b'" using p(1) b1(2) by simp
  have s1: "inject_trigger (a @ ?C @ b) = (a @ ?C @ b1) @ ?TT @ b'"
  proof -
    have n: "\<forall>i<length (a @ ?C @ b1).
        rxDefaultTrigger (drop i ((a @ ?C @ b1) @ ?M @ b')) = None"
    proof (intro allI impI)
      fix i assume i: "i < length (a @ ?C @ b1)"
      have "rxDefaultTrigger (drop i (a @ ?C @ (b1 @ ?M @ b'))) = None"
      proof (rule no_new_trigger_match_at [where p = ?P,
            OF _ _ DEFAULT_COLUMNS_TEXT_no_percent DEFAULT_COLUMNS_TEXT_line_break])
        assume "i < length a"
        then have "i < length a'" using b1(1) by simp
        from t(3) [OF this] show "rxDefaultTrigger (drop i (a @ ?P @ b1 @ ?M @ b')) = None"
          by (simp only: q1)
      next
        assume g: "length a + length ?C \<le> i"
        define j where "j = i - length a - length ?C"
        have j: "j < length b1" using i g by (simp add: j_def)
        then have "length a + length ?P + j < length a'" using b1(1) by simp
        from t(3) [OF this] have "rxDefaultTrigger (drop (length a + length ?P + j) q) = None" .
        moreover have "drop (length a + length ?P + j) q = drop j (b1 @ ?M @ b')"
          by (simp add: q1)
        ultimately show "rxDefaultTrigger (drop (i - length a - length ?C) (b1 @ ?M @ b')) = None"
          by (simp only: j_def)
      qed
      then show "rxDefaultTrigger (drop i ((a @ ?C @ b1) @ ?M @ b')) = None"
        by (simp only: append_assoc)
    qed
    from trigger_search_at [OF t(4) n] show ?thesis by (simp only: b1(2) append_assoc)
  qed
  have s2: "inject_columns (a' @ ?TT @ b') = a @ ?C @ (b1 @ ?TT @ b')"
  proof -
    have n: "\<forall>i<length a. strip_prefix ?P (drop i (a @ ?P @ (b1 @ ?TT @ b'))) = None"
    proof (intro allI impI)
      fix i assume i: "i < length a"
      from p(3) [OF i] have "take (length ?P) (drop i q) \<noteq> ?P"
        by (simp only: strip_prefix_None_take simp_thms)
      moreover have "take (length ?P) (drop i (a @ ?P @ (b1 @ ?TT @ b')))
          = take (length ?P) (drop i q)"
        using i by (simp add: q1)
      ultimately show "strip_prefix ?P (drop i (a @ ?P @ (b1 @ ?TT @ b'))) = None"
        by (simp add: strip_prefix_None_take)
    qed
    from columns_search_at [OF n] show ?thesis by (simp only: b1(1) append_assoc)
  qed
  show ?thesis by (simp only: p(2) t(2) s1 s2 append_assoc)
qed


lemma no_columns_placeholder_created:
  assumes old: "\<And>k. strip_prefix DEFAULT_COLUMNS_PLACEHOLDER (drop k (a' @ M @ c)) = None"
    and pc: "37 \<notin> set g1" "37 \<notin> set g2"
  shows "strip_prefix DEFAULT_COLUMNS_PLACEHOLDER (drop i (a' @ trigger_text g1 g2 @ c)) = None"
proof (rule no_new_placeholder_at [where M = M])
  show "strip_prefix DEFAULT_COLUMNS_PLACEHOLDER (drop i (a' @ M @ c)) = None" by (rule old)
  have "drop (length a' + length M + (i - length a' - length (trigger_text g1 g2))) (a' @ M @ c)
      = drop (i - length a' - length (trigger_text g1 g2)) c" by simp
  with old [of "length a' + length M + (i - length a' - length (trigger_text g1 g2))"]
  show "strip_prefix DEFAULT_COLUMNS_PLACEHOLDER
          (drop (i - length a' - length (trigger_text g1 g2)) c) = None"
    by (simp only:)
  show "trigger_text g1 g2 \<noteq> []" by (rule trigger_text_props(1))
  show "hd (trigger_text g1 g2) \<notin> set DEFAULT_COLUMNS_PLACEHOLDER"
    by (simp add: trigger_text_props(2) placeholder_units)
  show "DEFAULT_COLUMNS_PLACEHOLDER \<noteq> []" by (rule placeholder_units(1))
  show "hd DEFAULT_COLUMNS_PLACEHOLDER \<notin> set (trigger_text g1 g2)"
    using trigger_text_props(3) [OF pc] by (simp add: placeholder_units)
qed

lemma trigger_before_columns:
  assumes P: "regex_search (strip_prefix DEFAULT_COLUMNS_PLACEHOLDER) q = Some (a, b)"
    and T: "regex_search rxDefaultTrigger q = Some (a', g1, g2, b')"
    and len: "length b + length DEFAULT_COLUMNS_PLACEHOLDER \<le> length b'"
    and pc: "37 \<notin> set g1" "37 \<notin> set g2"
  shows "inject_trigger (inject_columns q) = inject_columns (inject_trigger q)"
proof -
  let ?P = DEFAULT_COLUMNS_PLACEHOLDER
  let ?C = DEFAULT_COLUMNS_TEXT
  let ?M = "trigger_placeholder g1 g2"
  let ?TT = "trigger_text g1 g2"
  note p = inject_columns_at [OF P]
  note t = inject_trigger_at [OF T]
  obtain b1 where b1: "a = a' @ ?M @ b1" "b' = b1 @ ?P @ b"
  proof -
    have e: "a @ (?P @ b) = (a' @ ?M) @ b'" using p(1) t(1) by simp
    then obtain us where
      us: "a = (a' @ ?M) @ us \<and> us @ (?P @ b) = b' \<or> a @ us = a' @ ?M \<and> ?P @ b = us @ b'"
      using append_eq_append_conv2 [of a "?P @ b" "a' @ ?M" b'] by blast
    then show thesis
    proof
      assume "a = (a' @ ?M) @ us \<and> us @ (?P @ b) = b'"
      then have "a = a' @ ?M @ us" "b' = us @ ?P @ b" by auto
      then show thesis by (rule that)
    next
      assume x: "a @ us = a' @ ?M \<and> ?P @ b = us @ b'"
      then have "length (?P @ b) = length (us @ b')" by simp
      then have "length ?P + length b = length us + length b'" by simp
      with len have "length us = 0" by linarith
      then have "us = []" by simp
      with x have "a = a' @ ?M @ []" "b' = [] @ ?P @ b" by simp_all
      then show thesis by (rule that)
    qed
  qed
  have q1: "q = a' @ ?M @ b1 @ ?P @ b" using t(1) b1(2) by simp
  have s1: "inject_columns (a' @ ?TT @ b') = (a' @ ?TT @ b1) @ ?C @ b"
  proof -
    have n: "\<forall>i<length (a' @ ?TT @ b1).
        strip_prefix ?P (drop i ((a' @ ?TT @ b1) @ ?P @ b)) = None"
    proof (intro allI impI)
      fix i assume i: "i < length (a' @ ?TT @ b1)"
      have "strip_prefix ?P (drop i (a' @ ?TT @ (b1 @ ?P @ b))) = None"
      proof (rule no_new_placeholder_at [where M = ?M])
        assume "i < length a'"
        then have "i < length a" using b1(1) by simp
        from p(3) [OF this] show "strip_prefix ?P (drop i (a' @ ?M @ b1 @ ?P @ b)) = None"
          by (simp only: q1)
      next
        assume g: "length a' + length ?TT \<le> i"
        define j where "j = i - length a' - length ?TT"
        have j: "j < length b1" using i g by (simp add: j_def)
        then have "length a' + length ?M + j < length a" using b1(1) by simp
        from p(3) [OF this]
        have "strip_prefix ?P (drop (length a' + length ?M + j) q) = None" .
        moreover have "drop (length a' + length ?M + j) q = drop j (b1 @ ?P @ b)"
          by (simp add: q1)
        ultimately show "strip_prefix ?P (drop (i - length a' - length ?TT) (b1 @ ?P @ b)) = None"
          by (simp only: j_def)
      next
        show "?TT \<noteq> []" by (rule trigger_text_props(1))
        show "hd ?TT \<notin> set ?P" by (simp add: trigger_text_props(2) placeholder_units)
        show "?P \<noteq> []" by (rule placeholder_units(1))
        show "hd ?P \<notin> set ?TT"
          using trigger_text_props(3) [OF pc] by (simp add: placeholder_units)
      qed
      then show "strip_prefix ?P (drop i ((a' @ ?TT @ b1) @ ?P @ b)) = None"
        by (simp only: append_assoc)
    qed
    from columns_search_at [OF n] show ?thesis by (simp only: b1(2) append_assoc)
  qed
  have s2: "inject_trigger (a @ ?C @ b) = a' @ ?TT @ (b1 @ ?C @ b)"
  proof -
    have n: "\<forall>i<length a'. rxDefaultTrigger (drop i (a' @ ?M @ (b1 @ ?C @ b))) = None"
    proof (intro allI impI)
      fix i assume i: "i < length a'"
      have "rxDefaultTrigger (drop i ((a' @ ?M @ b1) @ ?C @ b)) = None"
      proof (rule no_new_trigger_match_at [where p = ?P,
            OF _ _ DEFAULT_COLUMNS_TEXT_no_percent DEFAULT_COLUMNS_TEXT_line_break])
        from t(3) [OF i]
        show "rxDefaultTrigger (drop i ((a' @ ?M @ b1) @ ?P @ b)) = None"
          by (simp only: q1 append_assoc)
      next
        assume "length (a' @ ?M @ b1) + length ?C \<le> i"
        with i have False by simp
        then show "rxDefaultTrigger (drop (i - length (a' @ ?M @ b1) - length ?C) b) = None" ..
      qed
      then show "rxDefaultTrigger (drop i (a' @ ?M @ (b1 @ ?C @ b))) = None"
        by (simp only: append_assoc)
    qed
    from trigger_search_at [OF t(4) n] show ?thesis by (simp only: b1(1) append_assoc)
  qed
  show ?thesis by (simp only: p(2) t(2) s1 s2 append_assoc)
qed

lemma trigger_alone:
  assumes P: "regex_search (strip_prefix DEFAULT_COLUMNS_PLACEHOLDER) q = None"
    and T: "regex_search rxDefaultTrigger q = Some (a', g1, g2, b')"
    and pc: "37 \<notin> set g1" "37 \<notin> set g2"
  shows "inject_trigger (inject_columns q) = inject_columns (inject_trigger q)"
proof -
  let ?P = DEFAULT_COLUMNS_PLACEHOLDER
  let ?M = "trigger_placeholder g1 g2"
  let ?TT = "trigger_text g1 g2"
  note t = inject_trigger_at [OF T]
  have ic: "inject_columns q = q" using P by (simp add: inject_columns_def replace_string_def)
  have old: "strip_prefix ?P (drop k (a' @ ?M @ b')) = None" for k
  proof (cases "k \<le> length q")
    case True
    with P have "strip_prefix ?P (drop k q) = None" by (simp add: regex_search_None_iff)
    then show ?thesis by (simp only: t(1))
  next
    case False
    then have "drop k (a' @ ?M @ b') = []" using t(1) by simp
    moreover have "strip_prefix ?P [] = None"
      by (simp add: DEFAULT_COLUMNS_PLACEHOLDER_def js_def)
    ultimately show ?thesis by (simp only:)
  qed
  have "strip_prefix ?P (drop i (a' @ ?TT @ b')) = None" for i
    by (rule no_columns_placeholder_created [OF old pc])
  then have "regex_search (strip_prefix ?P) (a' @ ?TT @ b') = None"
    by (simp add: regex_search_None_iff)
  then have "inject_columns (a' @ ?TT @ b') = a' @ ?TT @ b'"
    by (simp add: inject_columns_def replace_string_def)
  then show ?thesis by (simp only: ic t(2))
qed

lemma example_searches:
  "regex_search rxDefaultTrigger both_placeholders
     = Some ([], js ''a'', js ''b'', js '' %DEFAULT_COLUMNS%'')"
  "regex_search (strip_prefix DEFAULT_COLUMNS_PLACEHOLDER) both_placeholders
     = Some (js ''%DEFAULT_TRIGGER(a.b)% '', [])"
  "regex_search rxDefaultTrigger columns_then_trigger
     = Some (js ''%DEFAULT_COLUMNS% '', js ''a'', js ''b'', [])"
  "regex_search (strip_prefix DEFAULT_COLUMNS_PLACEHOLDER) columns_then_trigger
     = Some ([], js '' %DEFAULT_TRIGGER(a.b)%'')"
  "regex_search rxDefaultTrigger DEFAULT_COLUMNS_PLACEHOLDER = None"
  "regex_search (strip_prefix DEFAULT_COLUMNS_PLACEHOLDER) (js ''SELECT 1'') = None"
  "regex_search rxDefaultTrigger (js ''SELECT 1'') = None"
  by (simp_all add: both_placeholders_def columns_then_trigger_def DEFAULT_COLUMNS_PLACEHOLDER_def
      rxDefaultTrigger_def js_def rx_dot_def is_line_terminator_def)

section \<open>Facts about the names of the pairing check\<close>

lemma TABLE_pattern_iff:
  "TABLE_pattern schema object f
     \<longleftrightarrow> (\<exists>rest. f = schema @ js ''.'' @ object @ js '' TABLE'' @ rest)"
  using strip_prefix_None_iff [of "schema @ js ''.'' @ object @ js '' TABLE''" f]
  by (simp add: TABLE_pattern_def)

lemma RLS_pattern_iff: "RLS_pattern p f \<longleftrightarrow> (\<exists>rest. f = p @ js '' RLS'' @ rest)"
  using strip_prefix_None_iff [of "p @ js '' RLS''" f] by (simp add: RLS_pattern_def)

lemma occurs_in_iff: "occurs_in m s \<longleftrightarrow> (\<exists>a b. s = a @ m @ b)"
proof (induction s)
  case Nil
  then show ?case by simp
next
  case (Cons c cs)
  have "(\<exists>a b. c # cs = a @ m @ b)
      \<longleftrightarrow> (\<exists>r. c # cs = m @ r) \<or> (\<exists>a b. cs = a @ m @ b)" (is "?L \<longleftrightarrow> ?R")
  proof
    assume ?L
    then obtain a b where ab: "c # cs = a @ m @ b" by blast
    show ?R
    proof (cases a)
      case Nil
      with ab show ?thesis by auto
    next
      case (Cons x a')
      with ab have "cs = a' @ m @ b" by simp
      then show ?thesis by blast
    qed
  next
    assume ?R
    then show ?L
    proof
      assume "\<exists>r. c # cs = m @ r"
      then obtain r where "c # cs = [] @ m @ r" by auto
      then show ?L by blast
    next
      assume "\<exists>a b. cs = a @ m @ b"
      then obtain a b where "c # cs = (c # a) @ m @ b" by auto
      then show ?L by blast
    qed
  qed
  with Cons show ?case by (simp add: strip_prefix_None_iff)
qed

text \<open>
  A marker whose first code unit does not occur in it again (as the blank of \<open>" TABLE"\<close>
  and of \<open>" RLS"\<close>) cannot begin inside a text and end in a copy of itself that follows:
  if it does not occur in the text, it matches nowhere before the copy.
\<close>

lemma marker_not_before:
  assumes "c \<notin> set m'" "\<not> occurs_in (c # m') p" "i < length p"
  shows "strip_prefix (c # m') (drop i p @ (c # m') @ rest) = None"
proof (cases "strip_prefix (c # m') (drop i p @ (c # m') @ rest)")
  case None
  then show ?thesis .
next
  case (Some r)
  then have e: "drop i p @ (c # m') @ rest = (c # m') @ r"
    by (simp only: strip_prefix_iff)
  have no: "p \<noteq> a @ (c # m') @ b" for a b
    using assms(2) unfolding occurs_in_iff by blast
  from assms(3) obtain x xs where x: "drop i p = x # xs"
    by (cases "drop i p") simp_all
  have "\<exists>us. (drop i p = (c # m') @ us \<and> us @ (c # m') @ rest = r)
     \<or> (drop i p @ us = c # m' \<and> (c # m') @ rest = us @ r)"
    by (rule iffD1 [OF append_eq_append_conv2 e])
  then obtain us where
    "(drop i p = (c # m') @ us \<and> us @ (c # m') @ rest = r)
     \<or> (drop i p @ us = c # m' \<and> (c # m') @ rest = us @ r)" ..
  then have False
  proof (elim disjE conjE)
    assume d: "drop i p = (c # m') @ us"
    have "p = take i p @ (c # m') @ us"
      using append_take_drop_id [of i p] unfolding d by (rule sym)
    with no show False by blast
  next
    assume d: "drop i p @ us = c # m'" and d2: "(c # m') @ rest = us @ r"
    show False
    proof (cases us)
      case Nil
      with d have d': "drop i p = (c # m') @ []" by simp
      have "p = take i p @ (c # m') @ []"
        using append_take_drop_id [of i p] unfolding d' by (rule sym)
      with no show False by blast
    next
      case (Cons u us')
      with d2 have u: "u = c" by simp
      from d have "xs @ u # us' = m'" unfolding x Cons by simp
      then have "u \<in> set m'" by auto
      with u assms(1) show False by simp
    qed
  qed
  then show ?thesis ..
qed

lemma ascii_letters_rx_alpha: "ascii_letters s \<Longrightarrow> \<forall>c\<in>set s. rx_alpha c"
  by (auto simp: ascii_letters_def rx_alpha_def list_all_iff)

lemma one_line_rx_dot: "one_line s \<Longrightarrow> \<forall>c\<in>set s. rx_dot c"
  by (auto simp: one_line_def rx_dot_def is_line_terminator_def list_all_iff)

lemma one_line_append [simp]: "one_line (a @ b) \<longleftrightarrow> one_line a \<and> one_line b"
  by (simp add: one_line_def)

text \<open>
  When the schema is made of ASCII letters, the object holds no line terminator and
  \<open>" TABLE"\<close> does not occur in the prefix, the first group of \<open>rxTableName\<close> is the
  prefix.
\<close>

lemma table_name_group:
  assumes "ascii_letters schema" "one_line object"
    and "\<not> occurs_in (js '' TABLE'') (schema @ js ''.'' @ object)"
  shows "rxTableName (schema @ js ''.'' @ object @ js '' TABLE'' @ rest)
           = Some (schema @ js ''.'' @ object)"
proof -
  let ?k2 = "strip_prefix (js '' TABLE'')"
  let ?k = "\<lambda>s1. case strip_prefix (js ''.'') s1 of
                    None \<Rightarrow> None
                  | Some s2 \<Rightarrow> lazy_star rx_dot ?k2 s2"
  let ?p = "schema @ js ''.'' @ object"
  have mk: "js '' TABLE'' = 32 # js ''TABLE''" "32 \<notin> set (js ''TABLE'')"
    by (simp_all add: js_def)
  have inner: "\<forall>i<length object. ?k2 (drop i object @ js '' TABLE'' @ rest) = None"
  proof (intro allI impI)
    fix i assume i: "i < length object"
    have "i + length (schema @ js ''.'') < length ?p" using i by simp
    from marker_not_before [OF mk(2) assms(3) [unfolded mk(1)] this, of rest]
    have "strip_prefix (32 # js ''TABLE'')
            (drop (i + length (schema @ js ''.'')) ?p @ (32 # js ''TABLE'') @ rest) = None" .
    moreover have "drop (i + length (schema @ js ''.'')) ?p = drop i object"
      by (simp add: add.commute)
    ultimately show "?k2 (drop i object @ js '' TABLE'' @ rest) = None"
      by (simp only: mk(1))
  qed
  have k2: "?k2 (js '' TABLE'' @ rest) = Some rest" by (simp add: strip_prefix_iff)
  have l2: "lazy_star rx_dot ?k2 (object @ js '' TABLE'' @ rest) = Some (object, rest)"
    by (rule lazy_star_hit [of object rx_dot ?k2 "js '' TABLE'' @ rest" rest,
          OF one_line_rx_dot [OF assms(2)] k2 inner])
  have kt: "?k (js ''.'' @ object @ js '' TABLE'' @ rest) = Some (object, rest)"
  proof -
    have "strip_prefix (js ''.'') (js ''.'' @ object @ js '' TABLE'' @ rest)
        = Some (object @ js '' TABLE'' @ rest)" by (simp add: strip_prefix_iff)
    then show ?thesis by (simp only: option.case l2)
  qed
  have outer: "\<forall>i<length schema.
      ?k (drop i schema @ js ''.'' @ object @ js '' TABLE'' @ rest) = None"
  proof (intro allI impI)
    fix i assume i: "i < length schema"
    then obtain x xs where x: "drop i schema = x # xs" by (cases "drop i schema") auto
    then have "x \<in> set schema" by (metis in_set_dropD list.set_intros(1))
    with ascii_letters_rx_alpha [OF assms(1)] have "rx_alpha x" by blast
    then have "x \<noteq> 46" by (auto simp: rx_alpha_def)
    then have "strip_prefix (js ''.'') (drop i schema @ js ''.'' @ object @ js '' TABLE'' @ rest)
        = None" by (simp add: x js_def)
    then show "?k (drop i schema @ js ''.'' @ object @ js '' TABLE'' @ rest) = None"
      by (simp only: option.case)
  qed
  have "lazy_star rx_alpha ?k (schema @ js ''.'' @ object @ js '' TABLE'' @ rest)
      = Some (schema, object, rest)"
    by (rule lazy_star_hit [of schema rx_alpha ?k "js ''.'' @ object @ js '' TABLE'' @ rest"
          "(object, rest)", OF ascii_letters_rx_alpha [OF assms(1)] kt outer])
  then show ?thesis by (simp only: rxTableName_def option.case prod.case)
qed

text \<open>
  When the prefix holds no line terminator and \<open>" RLS"\<close> does not occur in it, the first
  group of \<open>rxRLSName\<close> is the prefix.
\<close>

lemma rls_name_group:
  assumes "one_line p" "\<not> occurs_in (js '' RLS'') p"
  shows "rxRLSName (p @ js '' RLS'' @ rest) = Some p"
proof -
  let ?k = "strip_prefix (js '' RLS'')"
  have mk: "js '' RLS'' = 32 # js ''RLS''" "32 \<notin> set (js ''RLS'')"
    by (simp_all add: js_def)
  have before: "\<forall>i<length p. ?k (drop i p @ js '' RLS'' @ rest) = None"
  proof (intro allI impI)
    fix i assume i: "i < length p"
    from marker_not_before [OF mk(2) assms(2) [unfolded mk(1)] i, of rest]
    show "?k (drop i p @ js '' RLS'' @ rest) = None" by (simp only: mk(1))
  qed
  have k: "?k (js '' RLS'' @ rest) = Some rest" by (simp add: strip_prefix_iff)
  have l: "lazy_star rx_dot ?k (p @ js '' RLS'' @ rest) = Some (p, rest)"
    by (rule lazy_star_hit [of p rx_dot ?k "js '' RLS'' @ rest" rest,
          OF one_line_rx_dot [OF assms(1)] k before])
  have "regex_search (lazy_star rx_dot ?k) ([] @ p @ js '' RLS'' @ rest) = Some ([], p, rest)"
    by (rule regex_search_hit [of "lazy_star rx_dot ?k" "p @ js '' RLS'' @ rest" "(p, rest)" "[]"])
       (simp_all add: l)
  then show ?thesis by (simp add: rxRLSName_def)
qed

text \<open>
  In a name without a line terminator the search of \<open>rxRLSName\<close> succeeds at the first
  position or nowhere, so the name begins with the first group and \<open>" RLS"\<close>.
\<close>

lemma rls_group_prefix:
  assumes "one_line f2" "rxRLSName f2 = Some p"
  shows "RLS_pattern p f2"
proof -
  let ?m = "lazy_star rx_dot (strip_prefix (js '' RLS''))"
  from assms(2) obtain pre post where
    s: "regex_search ?m f2 = Some (pre, p, post)"
    by (auto simp: rxRLSName_def split: option.splits)
  from regex_search_SomeD [OF s] obtain t where
    t: "f2 = pre @ t" "?m t = Some (p, post)" "\<forall>i<length pre. ?m (drop i f2) = None"
    by blast
  from lazy_star_SomeD [OF t(2)] obtain t2 where
    t2: "t = p @ t2" "strip_prefix (js '' RLS'') t2 = Some post"
    by blast
  have f2: "f2 = (pre @ p) @ js '' RLS'' @ post"
    using t(1) t2 by (simp add: strip_prefix_iff)
  have "pre = []"
  proof (rule ccontr)
    assume "pre \<noteq> []"
    then have "?m (drop 0 f2) = None" using t(3) by blast
    moreover have "one_line (pre @ p)" using assms(1) unfolding f2 by simp
    then have "?m ((pre @ p) @ js '' RLS'' @ post) \<noteq> None"
      by (intro lazy_star_complete one_line_rx_dot) (simp_all add: strip_prefix_iff)
    ultimately show False using f2 by simp
  qed
  with f2 show ?thesis by (simp add: RLS_pattern_iff)
qed

lemma example_patterns:
  "TABLE_pattern (js ''public'') (js ''orders'') TABLE_file"
  "ascii_letters (js ''public'')"
  "one_line TABLE_file" "one_line RLS_file" "one_line (js ''a'')"
  "\<not> occurs_in (js '' TABLE'') (js ''public'' @ js ''.'' @ js ''orders'')"
  "\<not> occurs_in (js '' RLS'') (js ''public'' @ js ''.'' @ js ''orders'')"
  "\<not> RLS_pattern (js ''public'' @ js ''.'' @ js ''orders'') TABLE_file"
  "\<not> RLS_pattern (js ''public'' @ js ''.'' @ js ''orders'') (js ''a'')"
  "RLS_pattern (js ''public'' @ js ''.'' @ js ''orders'') RLS_file"
  by (simp_all add: TABLE_pattern_def RLS_pattern_def ascii_letters_def one_line_def
      TABLE_file_def RLS_file_def js_def)

lemma underscore_names:
  "rxTableName UNDERSCORE_file = None" "rxTableName (js ''a'') = None"
  "UNDERSCORE_file \<noteq> js ''a''"
  "TABLE_pattern (js ''my_schema'') (js ''orders'') UNDERSCORE_file"
  "\<not> RLS_pattern (js ''my_schema'' @ js ''.'' @ js ''orders'') UNDERSCORE_file"
  "\<not> RLS_pattern (js ''my_schema'' @ js ''.'' @ js ''orders'') (js ''a'')"
  "one_line UNDERSCORE_file"
  "\<not> occurs_in (js '' TABLE'') (js ''my_schema'' @ js ''.'' @ js ''orders'')"
  "\<not> ascii_letters (js ''my_schema'')"
  by (simp_all add: rxTableName_def UNDERSCORE_file_def TABLE_pattern_def RLS_pattern_def
      one_line_def ascii_letters_def js_def rx_alpha_def rx_dot_def is_line_terminator_def)

lemma demo_underscore_env:
  "checkEnvVars (demo_underscore c) = None"
  "manifest_json (demo_underscore c) = Some \<lparr>updates = [js ''a''], ignore = [UNDERSCORE_file]\<rparr>"
  "readdirSync (demo_underscore c) = Some [UNDERSCORE_file, js ''a'']"
  "connect_ok (demo_underscore c)"
  "manage_ok (demo_underscore c)" "select_ok (demo_underscore c)" "begin_ok (demo_underscore c)"
  "doCommit (demo_underscore c) = c"
  by (simp_all add: checkEnvVars_def falsy_def demo_underscore_def demo_defs js_def)

lemma demo_underscore_exit: "exit_code (main (demo_underscore c) fresh_db) = 0"
proof -
  have "apply_updates (demo_underscore c) (ledger_rows fresh_db)
           (updates \<lparr>updates = [js ''a''], ignore = [UNDERSCORE_file]\<rparr>) (state_at_begin fresh_db)
     = Inr \<lparr>db = \<lparr>objects = [js ''A''],
                 db_updates = Some [\<lparr>name = js ''a'', sha256 = js ''A''\<rparr>]\<rparr>,
          tx_start = Some \<lparr>objects = [], db_updates = Some []\<rparr>,
          calls = [Connect, ManageDbUpdates, SelectDbUpdates, Begin,
                   Script (js ''A''), InsertRow (js ''a'') (js ''A'')],
          console = [Applied (js ''a'')], updateCounter = 1\<rparr>"
    using demo_one_script_loop [of "demo_underscore c"]
    by (simp add: demo_underscore_def demo_env_def del: apply_updates.simps)
  from main_exit_0I [OF demo_underscore_env(1-7) this] show ?thesis .
qed

text \<open>
  Each of the other restrictions is needed too. With a line feed in the object the name
  is not collected; with \<open>" TABLE"\<close> or \<open>" RLS"\<close> in the prefix the name is collected
  although the directory holds the file with that prefix and \<open>" RLS"\<close>.
\<close>

lemma restrictions_are_needed:
  "warnTablesWithoutRLS [js ''a.b'' @ [10] @ js ''c TABLE.sql''] = []"
  "js ''a.b TABLE c TABLE.sql''
     \<in> set (warnTablesWithoutRLS [js ''a.b TABLE c RLS.sql'', js ''a.b TABLE c TABLE.sql''])"
  "js ''a.b RLS c TABLE.sql''
     \<in> set (warnTablesWithoutRLS [js ''a.b RLS c RLS.sql'', js ''a.b RLS c TABLE.sql''])"
  by (simp_all add: warnTablesWithoutRLS_def rxTableName_def rxRLSName_def truthy_def js_def
      rx_alpha_def rx_dot_def is_line_terminator_def)

section \<open>C3: what is hashed\<close>

text \<open>
  C3, as the source has it. One pass of the loop reads the file, takes the digest of the
  text as read, expands the templates, and decides: the digest that is compared with the
  ledger and written to it is the digest of the unexpanded text, and the body that is sent
  to the database is the expanded text.
\<close>

theorem digest_is_taken_before_expansion:
  assumes "readFileSync env u = Some script"
    and "apply_update env alreadyApplied u st = Inr st'"
  shows "calls st' = calls st @
           (case decide alreadyApplied u (sha256_hex env script) of
              Skip \<Rightarrow> []
            | Update \<Rightarrow> [Script (injectDefaults script), UpdateRow (sha256_hex env script) u]
            | Insert \<Rightarrow> [Script (injectDefaults script), InsertRow u (sha256_hex env script)])"
  using assms
  by (auto simp: apply_update_def decide_def pg_script_def pg_update_def pg_insert_def
      issue_def say_def Let_def split: option.splits sum.splits if_splits)

theorem digest_is_taken_before_expansion_witness:
  "readFileSync (demo_env True [] \<lparr>updates = [js ''a''], ignore = []\<rparr>
        [(js ''a'', DEFAULT_COLUMNS_PLACEHOLDER)]) (js ''a'') = Some DEFAULT_COLUMNS_PLACEHOLDER
   \<and> calls (projr (apply_update (demo_env True [] \<lparr>updates = [js ''a''], ignore = []\<rparr>
        [(js ''a'', DEFAULT_COLUMNS_PLACEHOLDER)]) [] (js ''a'') (state_at_begin fresh_db)))
     = [Connect, ManageDbUpdates, SelectDbUpdates, Begin, Script DEFAULT_COLUMNS_TEXT,
        InsertRow (js ''a'') (demo_digest DEFAULT_COLUMNS_PLACEHOLDER)]"
proof -
  let ?E = "demo_env True [] \<lparr>updates = [js ''a''], ignore = []\<rparr>
        [(js ''a'', DEFAULT_COLUMNS_PLACEHOLDER)]"
  have f: "DEFAULT_COLUMNS_TEXT \<noteq> js ''FAIL''"
    by (simp add: DEFAULT_COLUMNS_TEXT_def js_def)
  have h1: "readFileSync ?E (js ''a'') = Some DEFAULT_COLUMNS_PLACEHOLDER"
    by (simp add: demo_defs)
  have h2: "apply_update ?E [] (js ''a'') (state_at_begin fresh_db)
      = Inr (projr (apply_update ?E [] (js ''a'') (state_at_begin fresh_db)))"
    using f by (simp add: run_defs demo_defs state_at_begin_def injectDefaults_placeholder)
  have c: "calls (state_at_begin fresh_db) = [Connect, ManageDbUpdates, SelectDbUpdates, Begin]"
    by (simp add: run_defs state_at_begin_def)
  show ?thesis
    using digest_is_taken_before_expansion [OF h1 h2] h1 c
    by (simp add: decide_def demo_defs injectDefaults_placeholder)
qed

text \<open>
  The claim as written (the digest is that of the expanded text) fails for a script that
  holds the columns placeholder: the ledger row holds the digest of the placeholder text.
\<close>

theorem digest_of_expanded_text_counterexample:
  "ledger_rows (db (final (main (demo_env True [] \<lparr>updates = [js ''a''], ignore = []\<rparr>
        [(js ''a'', DEFAULT_COLUMNS_PLACEHOLDER)]) fresh_db)))
     = [\<lparr>name = js ''a'', sha256 = demo_digest DEFAULT_COLUMNS_PLACEHOLDER\<rparr>]
   \<and> demo_digest DEFAULT_COLUMNS_PLACEHOLDER
       \<noteq> demo_digest (injectDefaults DEFAULT_COLUMNS_PLACEHOLDER)"
proof -
  have "DEFAULT_COLUMNS_PLACEHOLDER \<noteq> DEFAULT_COLUMNS_TEXT"
    by (simp add: DEFAULT_COLUMNS_PLACEHOLDER_def DEFAULT_COLUMNS_TEXT_def js_def)
  moreover have "DEFAULT_COLUMNS_TEXT \<noteq> js ''FAIL''"
    by (simp add: DEFAULT_COLUMNS_TEXT_def js_def)
  ultimately show ?thesis
    using \<open>DEFAULT_COLUMNS_TEXT \<noteq> js ''FAIL''\<close>
    by (simp add: run_defs demo_defs injectDefaults_placeholder js_def)
qed

section \<open>C6: a missing script directory\<close>

text \<open>
  C6. When \<open>db/db-updates\<close> does not exist the process ends with status 1 before
  it connects: no call reaches the driver, so no script is executed and the database is
  untouched. With the five variables set, the missing directory is reported and the
  listing of the directory then raises; with a variable unset, that is what is reported.
\<close>

theorem missing_location_fails_before_connecting:
  assumes "readdirSync env = None"
  shows "exit_code (main env d) = 1
    \<and> calls (final (main env d)) = []
    \<and> db (final (main env d)) = d
    \<and> (case checkEnvVars env of
          Some key \<Rightarrow> console (final (main env d)) = [EnvVarNotSet key]
        | None \<Rightarrow> console (final (main env d)) = [LocationDoesNotExist, Uncaught])"
  using assms
  by (cases "manifest_json env")
     (simp_all add: main_def initial_state_def exit_with_def say_def Let_def split: option.splits)

theorem missing_location_fails_before_connecting_witness:
  "readdirSync ((demo_env True [] \<lparr>updates = [js ''a''], ignore = []\<rparr>
        [(js ''a'', js ''A'')])\<lparr>readdirSync := None\<rparr>) = None
   \<and> exit_code (main ((demo_env True [] \<lparr>updates = [js ''a''], ignore = []\<rparr>
        [(js ''a'', js ''A'')])\<lparr>readdirSync := None\<rparr>) fresh_db) = 1
   \<and> console (final (main ((demo_env True [] \<lparr>updates = [js ''a''], ignore = []\<rparr>
        [(js ''a'', js ''A'')])\<lparr>readdirSync := None\<rparr>) fresh_db))
       = [LocationDoesNotExist, Uncaught]"
proof -
  let ?E = "(demo_env True [] \<lparr>updates = [js ''a''], ignore = []\<rparr>
        [(js ''a'', js ''A'')])\<lparr>readdirSync := None\<rparr>"
  have h: "readdirSync ?E = None" by simp
  have e: "checkEnvVars ?E = None" by (simp add: checkEnvVars_def falsy_def demo_defs js_def)
  show ?thesis using missing_location_fails_before_connecting [OF h, of fresh_db] h e by simp
qed

section \<open>C2: a failing entry\<close>

text \<open>
  C2. In a run that has connected and opened its transaction (the three statements before
  the loop were accepted), let the entries before entry \<open>u\<close> go through and let
  the database reject the body of \<open>u\<close>. Then the run sends \<open>ROLLBACK\<close> as its last
  statement, never sends \<open>COMMIT\<close>, and exits with status 1; the objects the scripts
  act on and the rows of the ledger are what they were before the run, so no body of the
  entries up to \<open>u\<close> is visible and the ledger records nothing new.
\<close>

theorem failing_entry_rolls_everything_back:
  assumes "checkEnvVars env = None" "manifest_json env = Some us"
    "readdirSync env = Some listing" "connect_ok env"
    and "manage_ok env" "select_ok env" "begin_ok env"
    and "updates us = earlier @ u # rest"
    and "apply_updates env (ledger_rows d) earlier (state_at_begin d) = Inr stk"
    and "readFileSync env u = Some script"
    and "decide (ledger_rows d) u (sha256_hex env script) \<noteq> Skip"
    and "run_sql env (injectDefaults script) (objects (db stk)) = None"
  shows "exit_code (main env d) = 1
    \<and> last (calls (final (main env d))) = Rollback
    \<and> Commit \<notin> set (calls (final (main env d)))
    \<and> tx_start (final (main env d)) = None
    \<and> objects (db (final (main env d))) = objects d
    \<and> ledger_rows (db (final (main env d))) = ledger_rows d"
proof -
  let ?ap = "ledger_rows d"
  have step: "apply_update env ?ap u stk
      = Inl (QueryError (injectDefaults script),
             issue (Script (injectDefaults script)) (stk\<lparr>updateCounter := updateCounter stk + 1\<rparr>))"
    using assms(10,11,12)
    by (auto simp: apply_update_def decide_def pg_script_def Let_def split: option.splits if_splits)
  define st4 where
    "st4 = issue (Script (injectDefaults script)) (stk\<lparr>updateCounter := updateCounter stk + 1\<rparr>)"
  have loop: "apply_updates env ?ap (updates us) (state_at_begin d)
      = Inl (QueryError (injectDefaults script), st4)"
    using assms(8,9) step by (simp add: apply_updates_append st4_def)
  have m: "main env d = exit_with 1 (pg_rollback (say (Failed (QueryError (injectDefaults script))) st4))"
    using main_Inl [OF assms(1-7) loop] .
  have tx: "tx_start st4 = Some (d\<lparr>db_updates := Some (ledger_rows d)\<rparr>)"
    using apply_updates_tx_Inl [OF loop] by (simp add: state_at_begin_simps)
  from apply_updates_loop_calls_Inl [OF loop] obtain cs where
    cs: "calls st4 = calls (state_at_begin d) @ cs" "\<forall>c\<in>set cs. loop_call c" by blast
  have nc: "Commit \<notin> set (calls st4)"
    using cs by (auto simp: state_at_begin_simps loop_call_def)
  show ?thesis
    using m tx nc by (simp add: exit_with_def pg_rollback_def say_def issue_def)
qed

theorem failing_entry_rolls_everything_back_witness:
  "checkEnvVars (demo_failing True) = None
   \<and> manifest_json (demo_failing True) = Some \<lparr>updates = [js ''a'', js ''b''], ignore = []\<rparr>
   \<and> readdirSync (demo_failing True) = Some [js ''a'', js ''b'']
   \<and> connect_ok (demo_failing True)
   \<and> manage_ok (demo_failing True) \<and> select_ok (demo_failing True)
   \<and> begin_ok (demo_failing True)
   \<and> apply_updates (demo_failing True) (ledger_rows fresh_db) [js ''a''] (state_at_begin fresh_db)
       = Inr (projr (apply_updates (demo_failing True) (ledger_rows fresh_db) [js ''a'']
                (state_at_begin fresh_db)))
   \<and> objects (db (projr (apply_updates (demo_failing True) (ledger_rows fresh_db) [js ''a'']
                (state_at_begin fresh_db)))) = [js ''A'']
   \<and> exit_code (main (demo_failing True) fresh_db) = 1
   \<and> last (calls (final (main (demo_failing True) fresh_db))) = Rollback
   \<and> objects (db (final (main (demo_failing True) fresh_db))) = []
   \<and> ledger_rows (db (final (main (demo_failing True) fresh_db))) = []"
proof -
  let ?E = "demo_failing True"
  let ?us = "\<lparr>updates = [js ''a'', js ''b''], ignore = []\<rparr>"
  let ?stk = "projr (apply_updates ?E (ledger_rows fresh_db) [js ''a''] (state_at_begin fresh_db))"
  have h1: "checkEnvVars ?E = None"
    by (simp add: checkEnvVars_def falsy_def demo_failing_def demo_defs js_def)
  have h2: "manifest_json ?E = Some ?us" by (simp add: demo_failing_def demo_defs)
  have h3: "readdirSync ?E = Some [js ''a'', js ''b'']" by (simp add: demo_failing_def demo_defs)
  have h4: "connect_ok ?E" by (simp add: demo_failing_def demo_defs)
  have ok: "manage_ok ?E" "select_ok ?E" "begin_ok ?E" by (simp_all add: demo_failing_def demo_defs)
  have h5: "updates ?us = [js ''a''] @ js ''b'' # []" by simp
  have ab: "js ''a'' \<noteq> js ''b''" "js ''A'' \<noteq> js ''FAIL''" by (simp_all add: js_def)
  have lp: "apply_updates ?E (ledger_rows fresh_db) [js ''a''] (state_at_begin fresh_db)
      = Inr \<lparr>db = \<lparr>objects = [js ''A''],
                 db_updates = Some [\<lparr>name = js ''a'', sha256 = js ''A''\<rparr>]\<rparr>,
          tx_start = Some \<lparr>objects = [], db_updates = Some []\<rparr>,
          calls = [Connect, ManageDbUpdates, SelectDbUpdates, Begin, Script (js ''A''),
                    InsertRow (js ''a'') (js ''A'')],
          console = [Applied (js ''a'')], updateCounter = 1\<rparr>"
    using ab
    by (simp add: run_defs state_at_begin_def demo_failing_def demo_defs Let_def)
  have h6: "apply_updates ?E (ledger_rows fresh_db) [js ''a''] (state_at_begin fresh_db) = Inr ?stk"
    unfolding lp by simp
  have h7: "readFileSync ?E (js ''b'') = Some (js ''FAIL'')"
    using ab by (simp add: demo_failing_def demo_defs)
  have h8: "decide (ledger_rows fresh_db) (js ''b'') (sha256_hex ?E (js ''FAIL'')) \<noteq> Skip"
    by (simp add: decide_def ledger_rows_def fresh_db_def)
  have o: "objects (db ?stk) = [js ''A'']" unfolding lp by simp
  have h9: "run_sql ?E (injectDefaults (js ''FAIL'')) (objects (db ?stk)) = None"
    by (simp add: o) (simp add: demo_failing_def demo_defs)
  show ?thesis
    using failing_entry_rolls_everything_back [OF h1 h2 h3 h4 ok h5 h6 h7 h8 h9]
      h1 h2 h3 h4 ok h6 o
    by (simp add: fresh_db_def ledger_rows_def)
qed

section \<open>C5: dry runs\<close>

text \<open>
  C5, as the source has it. A run without \<open>--commit\<close> that has connected never sends
  \<open>COMMIT\<close>, and the objects the scripts act on and the rows of the ledger are afterwards
  what they were before the run. When the queries of \<open>manage_db_updates_table\<close> and
  \<open>query_db_updates\<close> are accepted, the run goes on to \<open>BEGIN\<close> and sends \<open>ROLLBACK\<close>
  as its last statement; the table \<open>public.db_updates\<close>, managed before \<open>BEGIN\<close>, exists
  afterwards; the exit status is 0 when \<open>BEGIN\<close> was accepted and every entry went
  through, and 1 otherwise. When one of the two queries is rejected, the run ends with
  status 1 and sends no \<open>ROLLBACK\<close>; the table then exists afterwards if the first query
  was accepted, and is as it was before otherwise.
\<close>

theorem dry_run_is_rolled_back:
  assumes "\<not> doCommit env"
    and "checkEnvVars env = None" "manifest_json env = Some us"
    "readdirSync env = Some listing" "connect_ok env"
  shows "Commit \<notin> set (calls (final (main env d)))
    \<and> tx_start (final (main env d)) = None
    \<and> objects (db (final (main env d))) = objects d
    \<and> ledger_rows (db (final (main env d))) = ledger_rows d
    \<and> (if manage_ok env \<and> select_ok env
        then last (calls (final (main env d))) = Rollback
           \<and> db_updates (db (final (main env d))) = Some (ledger_rows d)
           \<and> exit_code (main env d) =
               (if begin_ok env
                then (case apply_updates env (ledger_rows d) (updates us) (state_at_begin d) of
                        Inl e \<Rightarrow> 1 | Inr st \<Rightarrow> 0)
                else 1)
        else Rollback \<notin> set (calls (final (main env d)))
           \<and> db_updates (db (final (main env d)))
               = (if manage_ok env then Some (ledger_rows d) else db_updates d)
           \<and> exit_code (main env d) = 1)"
proof (cases "manage_ok env \<and> select_ok env \<and> begin_ok env")
  case False
  note r = main_prelude_rejected [OF assms(2-5) False, of d]
  show ?thesis
  proof (cases "manage_ok env \<and> select_ok env")
    case True
    with False have b: "\<not> begin_ok env" by simp
    from True b show ?thesis
      unfolding r(1) r(2) r(3) r(4) by simp
  next
    case False
    then show ?thesis
      unfolding r(1) r(2) r(3) r(4) by auto
  qed
next
  case True
  then have ok: "manage_ok env" "select_ok env" "begin_ok env" by simp_all
  show ?thesis
  proof (cases "apply_updates env (ledger_rows d) (updates us) (state_at_begin d)")
    case (Inl x)
    obtain err st4 where x: "x = (err, st4)" by (cases x)
    have loop: "apply_updates env (ledger_rows d) (updates us) (state_at_begin d)
        = Inl (err, st4)"
      using Inl x by simp
    note m = main_Inl [OF assms(2-5) ok loop]
    have tx: "tx_start st4 = Some (d\<lparr>db_updates := Some (ledger_rows d)\<rparr>)"
      using apply_updates_tx_Inl [OF loop] by (simp add: state_at_begin_simps)
    from apply_updates_loop_calls_Inl [OF loop] obtain cs where
      cs: "calls st4 = calls (state_at_begin d) @ cs" "\<forall>c\<in>set cs. loop_call c" by blast
    have nc: "Commit \<notin> set (calls st4)"
      using cs by (auto simp: state_at_begin_simps loop_call_def)
    show ?thesis
      using m tx nc loop ok by (simp add: exit_with_def pg_rollback_def say_def issue_def)
  next
    case (Inr st4)
    have m: "main env d
        = exit_with 0 (say NotCommitted (printWarnings us (js_sort listing) (pg_rollback st4)))"
      using main_Inr [OF assms(2-5) ok Inr] assms(1) by simp
    have tx: "tx_start st4 = Some (d\<lparr>db_updates := Some (ledger_rows d)\<rparr>)"
      using apply_updates_tx_Inr [OF Inr] by (simp add: state_at_begin_simps)
    from apply_updates_loop_calls_Inr [OF Inr] obtain cs where
      cs: "calls st4 = calls (state_at_begin d) @ cs" "\<forall>c\<in>set cs. loop_call c" by blast
    have nc: "Commit \<notin> set (calls st4)"
      using cs by (auto simp: state_at_begin_simps loop_call_def)
    show ?thesis
      using m tx nc Inr ok
      by (simp add: exit_with_def pg_rollback_def say_def issue_def printWarnings_def)
  qed
qed

theorem dry_run_is_rolled_back_witness:
  "\<not> doCommit (demo_twice False) \<and> checkEnvVars (demo_twice False) = None
   \<and> manifest_json (demo_twice False) = Some \<lparr>updates = [js ''a'', js ''a''], ignore = []\<rparr>
   \<and> readdirSync (demo_twice False) = Some [js ''a''] \<and> connect_ok (demo_twice False)
   \<and> manage_ok (demo_twice False) \<and> select_ok (demo_twice False) \<and> begin_ok (demo_twice False)
   \<and> last (calls (final (main (demo_twice False) fresh_db))) = Rollback
   \<and> objects (db (final (main (demo_twice False) fresh_db))) = []
   \<and> ledger_rows (db (final (main (demo_twice False) fresh_db))) = []
   \<and> db_updates (db (final (main (demo_twice False) fresh_db))) = Some []
   \<and> exit_code (main (demo_twice False) fresh_db) = 0
   \<and> \<not> manage_ok ((demo_twice False)\<lparr>manage_ok := False\<rparr>)
   \<and> Rollback \<notin> set (calls (final (main ((demo_twice False)\<lparr>manage_ok := False\<rparr>) fresh_db)))
   \<and> db_updates (db (final (main ((demo_twice False)\<lparr>manage_ok := False\<rparr>) fresh_db))) = None
   \<and> exit_code (main ((demo_twice False)\<lparr>manage_ok := False\<rparr>) fresh_db) = 1"
proof -
  let ?E = "(demo_twice False)\<lparr>manage_ok := False\<rparr>"
  have h1: "\<not> doCommit (demo_twice False)" by (simp add: demo_twice_env)
  have k: "\<not> doCommit ?E" "checkEnvVars ?E = None"
    "manifest_json ?E = Some \<lparr>updates = [js ''a'', js ''a''], ignore = []\<rparr>"
    "readdirSync ?E = Some [js ''a'']" "connect_ok ?E"
    using demo_twice_env [of False] by (simp_all add: checkEnvVars_manage_ok)
  have n: "\<not> manage_ok ?E" by simp
  show ?thesis
    using dry_run_is_rolled_back [OF h1 demo_twice_env(1-4), where d = fresh_db]
      dry_run_is_rolled_back [OF k, where d = fresh_db] n
      demo_twice_env [of False] demo_twice_loop [of False]
    by (simp del: apply_updates.simps)
qed

text \<open>
  The claim as written fails on these runs: a dry run in which a script is rejected ends
  with status 1; on a database without \<open>public.db_updates\<close> the table exists
  afterwards; and a dry run whose first query is rejected sends no \<open>ROLLBACK\<close>.
\<close>

theorem dry_run_counterexample:
  "exit_code (main (demo_failing False) fresh_db) = 1
   \<and> db_updates (db (final (main (demo_failing False) fresh_db))) = Some []
   \<and> db_updates fresh_db = None
   \<and> calls (final (main ((demo_failing False)\<lparr>manage_ok := False\<rparr>) fresh_db))
       = [Connect, ManageDbUpdates]"
proof -
  have "apply_updates (demo_failing False) (ledger_rows fresh_db)
          (updates \<lparr>updates = [js ''a'', js ''b''], ignore = []\<rparr>) (state_at_begin fresh_db)
        = Inl (QueryError (js ''FAIL''),
         \<lparr>db = \<lparr>objects = [js ''A''],
                 db_updates = Some [\<lparr>name = js ''a'', sha256 = js ''A''\<rparr>]\<rparr>,
          tx_start = Some \<lparr>objects = [], db_updates = Some []\<rparr>,
          calls = [Connect, ManageDbUpdates, SelectDbUpdates, Begin,
                   Script (js ''A''), InsertRow (js ''a'') (js ''A''), Script (js ''FAIL'')],
          console = [Applied (js ''a'')], updateCounter = 2\<rparr>)"
    using demo_failing_loop [of False] by (simp del: apply_updates.simps)
  from main_Inl [OF demo_failing_env(1-7) this]
  have a: "exit_code (main (demo_failing False) fresh_db) = 1
   \<and> db_updates (db (final (main (demo_failing False) fresh_db))) = Some []
   \<and> db_updates fresh_db = None"
    by (simp add: exit_with_def pg_rollback_def say_def issue_def)
  let ?E = "(demo_failing False)\<lparr>manage_ok := False\<rparr>"
  have k: "checkEnvVars ?E = None"
    "manifest_json ?E = Some \<lparr>updates = [js ''a'', js ''b''], ignore = []\<rparr>"
    "readdirSync ?E = Some [js ''a'', js ''b'']" "connect_ok ?E"
    using demo_failing_env [of False] by (simp_all add: checkEnvVars_manage_ok)
  have n: "\<not> (manage_ok ?E \<and> select_ok ?E \<and> begin_ok ?E)" by simp
  from main_prelude_rejected(2) [OF k n, of fresh_db]
  have "calls (final (main ?E fresh_db)) = [Connect, ManageDbUpdates]" by simp
  with a show ?thesis by simp
qed

section \<open>C10: one snapshot of the ledger\<close>

text \<open>
  C10. In a run that has connected and opened its transaction, the statements that it
  sends between \<open>BEGIN\<close> and the end of the transaction are, entry by entry, those of the decision taken against the rows that the
  ledger held before the run (\<open>entry_calls\<close> is a function of these rows and of the
  entry alone): what the run has written meanwhile plays no part, so two occurrences of a
  name get the same decision. A run that fails does so within the statements of one entry.
\<close>

theorem every_decision_uses_the_snapshot:
  assumes "checkEnvVars env = None" "manifest_json env = Some us"
    "readdirSync env = Some listing" "connect_ok env"
    and "manage_ok env" "select_ok env" "begin_ok env"
  shows "\<exists>k cs cs'. k \<le> length (updates us)
    \<and> calls (final (main env d)) =
        [Connect, ManageDbUpdates, SelectDbUpdates, Begin]
        @ concat (map (entry_calls env (ledger_rows d)) (take k (updates us))) @ cs
        @ [if doCommit env \<and> exit_code (main env d) = 0 then Commit else Rollback]
    \<and> (exit_code (main env d) = 0 \<longrightarrow> k = length (updates us) \<and> cs = [])
    \<and> (exit_code (main env d) \<noteq> 0 \<longrightarrow>
          k < length (updates us) \<and> entry_calls env (ledger_rows d) (updates us ! k) = cs @ cs')"
proof (cases "apply_updates env (ledger_rows d) (updates us) (state_at_begin d)")
  case (Inl x)
  obtain err st4 where x: "x = (err, st4)" by (cases x)
  have loop: "apply_updates env (ledger_rows d) (updates us) (state_at_begin d) = Inl (err, st4)"
    using Inl x by simp
  note m = main_Inl [OF assms loop]
  from apply_updates_calls_Inl [OF loop] obtain k cs cs' where
    k: "k < length (updates us)"
      "calls st4 = calls (state_at_begin d)
          @ concat (map (entry_calls env (ledger_rows d)) (take k (updates us))) @ cs"
      "entry_calls env (ledger_rows d) (updates us ! k) = cs @ cs'" by blast
  have "k \<le> length (updates us)
    \<and> calls (final (main env d)) =
        [Connect, ManageDbUpdates, SelectDbUpdates, Begin]
        @ concat (map (entry_calls env (ledger_rows d)) (take k (updates us))) @ cs
        @ [if doCommit env \<and> exit_code (main env d) = 0 then Commit else Rollback]
    \<and> (exit_code (main env d) = 0 \<longrightarrow> k = length (updates us) \<and> cs = [])
    \<and> (exit_code (main env d) \<noteq> 0 \<longrightarrow>
          k < length (updates us) \<and> entry_calls env (ledger_rows d) (updates us ! k) = cs @ cs')"
    using k m
    by (simp add: exit_with_def pg_rollback_def say_def issue_def state_at_begin_simps
        split: option.splits)
  then show ?thesis
    by - (rule exI [where x = k], rule exI [where x = cs], rule exI [where x = cs'])
next
  case (Inr st4)
  note m = main_Inr [OF assms Inr]
  have c: "calls st4 = calls (state_at_begin d)
          @ concat (map (entry_calls env (ledger_rows d)) (updates us))"
    using apply_updates_calls [OF Inr] .
  have "length (updates us) \<le> length (updates us)
    \<and> calls (final (main env d)) =
        [Connect, ManageDbUpdates, SelectDbUpdates, Begin]
        @ concat (map (entry_calls env (ledger_rows d)) (take (length (updates us)) (updates us)))
        @ []
        @ [if doCommit env \<and> exit_code (main env d) = 0 then Commit else Rollback]
    \<and> (exit_code (main env d) = 0 \<longrightarrow> length (updates us) = length (updates us) \<and> [] = [])
    \<and> (exit_code (main env d) \<noteq> 0 \<longrightarrow>
          length (updates us) < length (updates us)
          \<and> entry_calls env (ledger_rows d) (updates us ! length (updates us)) = [] @ [])"
    using c m
    by (simp add: exit_with_def pg_rollback_def pg_commit_def say_def issue_def
        printWarnings_def state_at_begin_simps split: option.splits)
  then show ?thesis
    by - (rule exI [where x = "length (updates us)"], rule exI [where x = "[]"],
          rule exI [where x = "[]"])
qed

theorem every_decision_uses_the_snapshot_witness:
  "checkEnvVars (demo_twice True) = None
   \<and> manifest_json (demo_twice True) = Some \<lparr>updates = [js ''a'', js ''a''], ignore = []\<rparr>
   \<and> readdirSync (demo_twice True) = Some [js ''a''] \<and> connect_ok (demo_twice True)
   \<and> manage_ok (demo_twice True) \<and> select_ok (demo_twice True) \<and> begin_ok (demo_twice True)
   \<and> entry_calls (demo_twice True) (ledger_rows fresh_db) (js ''a'')
       = [Script (js ''A''), InsertRow (js ''a'') (js ''A'')]
   \<and> calls (final (main (demo_twice True) fresh_db)) =
        [Connect, ManageDbUpdates, SelectDbUpdates, Begin,
         Script (js ''A''), InsertRow (js ''a'') (js ''A''),
         Script (js ''A''), InsertRow (js ''a'') (js ''A''), Commit]"
proof -
  have e: "exit_code (main (demo_twice True) fresh_db) = 0"
    by (simp add: demo_twice_main exit_with_def)
  have ec: "entry_calls (demo_twice True) (ledger_rows fresh_db) (js ''a'')
       = [Script (js ''A''), InsertRow (js ''a'') (js ''A'')]"
    by (simp add: entry_calls_def decide_def demo_twice_def demo_env_def demo_digest_def)
  from every_decision_uses_the_snapshot [OF demo_twice_env(1-7), where d = fresh_db]
  obtain k cs cs' where
    "calls (final (main (demo_twice True) fresh_db)) =
        [Connect, ManageDbUpdates, SelectDbUpdates, Begin]
        @ concat (map (entry_calls (demo_twice True) (ledger_rows fresh_db))
            (take k (updates \<lparr>updates = [js ''a'', js ''a''], ignore = []\<rparr>))) @ cs
        @ [if doCommit (demo_twice True) \<and> exit_code (main (demo_twice True) fresh_db) = 0
           then Commit else Rollback]"
    "exit_code (main (demo_twice True) fresh_db) = 0 \<longrightarrow>
       k = length (updates \<lparr>updates = [js ''a'', js ''a''], ignore = []\<rparr>) \<and> cs = []"
    by blast
  then have "calls (final (main (demo_twice True) fresh_db)) =
        [Connect, ManageDbUpdates, SelectDbUpdates, Begin,
         Script (js ''A''), InsertRow (js ''a'') (js ''A''),
         Script (js ''A''), InsertRow (js ''a'') (js ''A''), Commit]"
    using e ec by (simp add: demo_twice_env)
  then show ?thesis using ec by (simp add: demo_twice_env)
qed

section \<open>C7: files that no list names\<close>

text \<open>
  C7. A file of the script directory that is in neither \<open>updates\<close> nor \<open>ignore\<close> is
  collected exactly once by the check, and a run that reaches the end of the loop, with
  or without \<open>--commit\<close>, prints exactly one warning that names it. The warning does not
  block anything: the exit status, the statements sent and the database a run leaves are
  the same whatever the directory lists and whatever \<open>ignore\<close> holds. (A run that aborts
  ends before the warnings are printed.)
\<close>

theorem unreferenced_file_is_warned_once:
  assumes "manifest_json env = Some us" "readdirSync env = Some listing" "distinct listing"
    and "f \<in> set listing" "f \<notin> set (updates us)" "f \<notin> set (ignore us)"
  shows "count_list (warnNotReferencedScripts us (js_sort listing)) f = 1
    \<and> (exit_code (main env d) = 0 \<longrightarrow>
         count_list (console (final (main env d))) (NotReferenced f) = 1)
    \<and> exit_code (main (env\<lparr>readdirSync := Some listing',
                              manifest_json := Some (us\<lparr>ignore := ig\<rparr>)\<rparr>) d)
           = exit_code (main env d)
    \<and> calls (final (main (env\<lparr>readdirSync := Some listing',
                                manifest_json := Some (us\<lparr>ignore := ig\<rparr>)\<rparr>) d))
           = calls (final (main env d))
    \<and> db (final (main (env\<lparr>readdirSync := Some listing',
                             manifest_json := Some (us\<lparr>ignore := ig\<rparr>)\<rparr>) d))
           = db (final (main env d))"
proof -
  have c: "count_list (js_sort listing) f = 1"
    using assms(3,4) by (simp add: count_list_js_sort count_list_distinct)
  have w: "count_list (warnNotReferencedScripts us (js_sort listing)) f = 1"
    using c assms(5,6)
    by (simp add: warnNotReferencedScripts_def count_list_filter find_absent truthy_def)
  have "count_list (console (final (main env d))) (NotReferenced f) = 1"
    if "exit_code (main env d) = 0"
    using warnings_of_complete_run(1) [OF that assms(1,2)] w by simp
  with w main_without_warnings [OF assms(1,2)] show ?thesis by simp
qed

theorem unreferenced_file_is_warned_once_witness:
  "manifest_json (demo_orphan True) = Some \<lparr>updates = [js ''a''], ignore = []\<rparr>
   \<and> readdirSync (demo_orphan True) = Some [TABLE_file, js ''a'']
   \<and> distinct [TABLE_file, js ''a''] \<and> TABLE_file \<in> set [TABLE_file, js ''a'']
   \<and> TABLE_file \<notin> set (updates \<lparr>updates = [js ''a''], ignore = []\<rparr>)
   \<and> TABLE_file \<notin> set (ignore \<lparr>updates = [js ''a''], ignore = []\<rparr>)
   \<and> exit_code (main (demo_orphan True) fresh_db) = 0
   \<and> count_list (console (final (main (demo_orphan True) fresh_db))) (NotReferenced TABLE_file) = 1
   \<and> exit_code (main (demo_orphan False) fresh_db) = 0
   \<and> count_list (console (final (main (demo_orphan False) fresh_db))) (NotReferenced TABLE_file) = 1"
proof -
  let ?us = "\<lparr>updates = [js ''a''], ignore = []\<rparr>"
  have h3: "distinct [TABLE_file, js ''a'']" by (simp add: example_names_differ)
  have h4: "TABLE_file \<in> set [TABLE_file, js ''a'']" by simp
  have h5: "TABLE_file \<notin> set (updates ?us)" by (simp add: example_names_differ)
  have h6: "TABLE_file \<notin> set (ignore ?us)" by simp
  show ?thesis
    using unreferenced_file_is_warned_once [OF demo_orphan_env(2,3) h3 h4 h5 h6,
        where c1 = True and d = fresh_db]
      unreferenced_file_is_warned_once [OF demo_orphan_env(2,3) h3 h4 h5 h6,
        where c1 = False and d = fresh_db]
      demo_orphan_exit h3 h5
    by (simp add: demo_orphan_env del: distinct.simps)
qed

section \<open>C9: tables without a policy script\<close>

text \<open>
  C9, as the source has it. Let a file of the directory have a name of the form
  \<open><schema.object> TABLE*\<close> in which the schema is made of ASCII letters only and
  \<open>" TABLE"\<close> does not occur in the prefix \<open>schema.object\<close>, and let no name of the
  directory hold a line terminator. If no file of the directory is named by the prefix,
  \<open>" RLS"\<close> and anything after it, the check collects the file exactly once and a run that
  reaches the end of the loop prints exactly one warning that names it. If there is such
  a file and \<open>" RLS"\<close> does not occur in the prefix, the check does not collect the file
  and no run prints a warning for it.
\<close>

theorem table_without_rls_is_warned_once:
  assumes "manifest_json env = Some us" "readdirSync env = Some listing" "distinct listing"
    and "f \<in> set listing" "TABLE_pattern schema object f"
    and "ascii_letters schema"
    and "\<forall>g\<in>set listing. one_line g"
    and "\<not> occurs_in (js '' TABLE'') (schema @ js ''.'' @ object)"
  shows "((\<forall>f2\<in>set listing. \<not> RLS_pattern (schema @ js ''.'' @ object) f2) \<longrightarrow>
            count_list (warnTablesWithoutRLS (js_sort listing)) f = 1
          \<and> (exit_code (main env d) = 0 \<longrightarrow>
               count_list (console (final (main env d))) (NoRLSFound f) = 1))
    \<and> ((\<exists>f2\<in>set listing. RLS_pattern (schema @ js ''.'' @ object) f2)
          \<and> \<not> occurs_in (js '' RLS'') (schema @ js ''.'' @ object) \<longrightarrow>
            f \<notin> set (warnTablesWithoutRLS (js_sort listing))
          \<and> NoRLSFound f \<notin> set (console (final (main env d))))"
proof -
  let ?p = "schema @ js ''.'' @ object"
  from assms(5) obtain rest where f: "f = schema @ js ''.'' @ object @ js '' TABLE'' @ rest"
    unfolding TABLE_pattern_iff by blast
  have "one_line f" using assms(4,7) by blast
  then have ol: "one_line object" "one_line ?p" unfolding f by simp_all
  have g: "rxTableName f = Some ?p"
    unfolding f by (rule table_name_group [OF assms(6) ol(1) assms(8)])
  note w = warned_by_first_groups [OF assms(1-4) g, of d]
  have n: "\<forall>f2\<in>set listing. rxRLSName f2 \<noteq> Some ?p"
    if "\<forall>f2\<in>set listing. \<not> RLS_pattern ?p f2"
    using that rls_group_prefix assms(7) by blast
  have s: "\<exists>f2\<in>set listing. rxRLSName f2 = Some ?p"
    if a: "\<exists>f2\<in>set listing. RLS_pattern ?p f2" and b: "\<not> occurs_in (js '' RLS'') ?p"
  proof -
    from a obtain f2 rest2 where f2: "f2 \<in> set listing" "f2 = ?p @ js '' RLS'' @ rest2"
      unfolding RLS_pattern_iff by blast
    have "rxRLSName f2 = Some ?p"
      unfolding f2(2) by (rule rls_name_group [OF ol(2) b])
    with f2(1) show ?thesis by blast
  qed
  show ?thesis using w n s by blast
qed

theorem table_without_rls_is_warned_once_witness:
  "manifest_json (demo_orphan True) = Some \<lparr>updates = [js ''a''], ignore = []\<rparr>
   \<and> readdirSync (demo_orphan True) = Some [TABLE_file, js ''a'']
   \<and> distinct [TABLE_file, js ''a''] \<and> TABLE_file \<in> set [TABLE_file, js ''a'']
   \<and> TABLE_pattern (js ''public'') (js ''orders'') TABLE_file
   \<and> ascii_letters (js ''public'')
   \<and> one_line TABLE_file \<and> one_line (js ''a'') \<and> one_line RLS_file
   \<and> \<not> occurs_in (js '' TABLE'') (js ''public'' @ js ''.'' @ js ''orders'')
   \<and> \<not> occurs_in (js '' RLS'') (js ''public'' @ js ''.'' @ js ''orders'')
   \<and> \<not> RLS_pattern (js ''public'' @ js ''.'' @ js ''orders'') TABLE_file
   \<and> \<not> RLS_pattern (js ''public'' @ js ''.'' @ js ''orders'') (js ''a'')
   \<and> exit_code (main (demo_orphan True) fresh_db) = 0
   \<and> count_list (console (final (main (demo_orphan True) fresh_db))) (NoRLSFound TABLE_file) = 1
   \<and> readdirSync (demo_paired True) = Some [TABLE_file, RLS_file]
   \<and> distinct [TABLE_file, RLS_file] \<and> TABLE_file \<in> set [TABLE_file, RLS_file]
   \<and> RLS_pattern (js ''public'' @ js ''.'' @ js ''orders'') RLS_file
   \<and> NoRLSFound TABLE_file \<notin> set (console (final (main (demo_paired True) fresh_db)))"
proof -
  have h3: "distinct [TABLE_file, js ''a'']" by (simp add: example_names_differ)
  have h4: "TABLE_file \<in> set [TABLE_file, js ''a'']" by simp
  have h7: "\<forall>g\<in>set [TABLE_file, js ''a'']. one_line g" by (simp add: example_patterns)
  have k3: "distinct [TABLE_file, RLS_file]" by (simp add: example_names_differ)
  have k4: "TABLE_file \<in> set [TABLE_file, RLS_file]" by simp
  have k7: "\<forall>g\<in>set [TABLE_file, RLS_file]. one_line g" by (simp add: example_patterns)
  have n: "\<forall>f2\<in>set [TABLE_file, js ''a''].
      \<not> RLS_pattern (js ''public'' @ js ''.'' @ js ''orders'') f2"
    by (simp add: example_patterns)
  have s: "\<exists>f2\<in>set [TABLE_file, RLS_file].
      RLS_pattern (js ''public'' @ js ''.'' @ js ''orders'') f2"
    by (simp add: example_patterns)
  have a: "count_list (console (final (main (demo_orphan True) fresh_db))) (NoRLSFound TABLE_file)
      = 1"
    using table_without_rls_is_warned_once [OF demo_orphan_env(2,3) h3 h4 example_patterns(1,2)
        h7 example_patterns(6), where c1 = True and d = fresh_db] n demo_orphan_exit [of True]
    by blast
  have b: "NoRLSFound TABLE_file \<notin> set (console (final (main (demo_paired True) fresh_db)))"
    using table_without_rls_is_warned_once [OF demo_paired_env(2,3) k3 k4 example_patterns(1,2)
        k7 example_patterns(6), where c1 = True and d = fresh_db] s example_patterns(7)
    by blast
  show ?thesis
    using a b h3 k3 demo_orphan_exit [of True] example_patterns
    by (simp add: demo_orphan_env demo_paired_env del: distinct.simps)
qed

text \<open>
  The claim as written fails for a schema that is not made of letters only: the name
  \<open>my_schema.orders TABLE.sql\<close> has the form \<open><schema.object> TABLE*\<close> and the
  directory holds no file named by its prefix and \<open>" RLS"\<close>, yet the check does not
  collect it and the run, which ends with status 0 with and without \<open>--commit\<close>, prints
  no warning for it.
\<close>

theorem table_with_underscore_counterexample:
  "readdirSync (demo_underscore True) = Some [UNDERSCORE_file, js ''a'']
   \<and> readdirSync (demo_underscore False) = Some [UNDERSCORE_file, js ''a'']
   \<and> TABLE_pattern (js ''my_schema'') (js ''orders'') UNDERSCORE_file
   \<and> \<not> RLS_pattern (js ''my_schema'' @ js ''.'' @ js ''orders'') UNDERSCORE_file
   \<and> \<not> RLS_pattern (js ''my_schema'' @ js ''.'' @ js ''orders'') (js ''a'')
   \<and> warnTablesWithoutRLS (js_sort [UNDERSCORE_file, js ''a'']) = []
   \<and> exit_code (main (demo_underscore True) fresh_db) = 0
   \<and> count_list (console (final (main (demo_underscore True) fresh_db)))
        (NoRLSFound UNDERSCORE_file) = 0
   \<and> exit_code (main (demo_underscore False) fresh_db) = 0
   \<and> count_list (console (final (main (demo_underscore False) fresh_db)))
        (NoRLSFound UNDERSCORE_file) = 0"
proof -
  have w: "warnTablesWithoutRLS (js_sort [UNDERSCORE_file, js ''a'']) = []"
    using set_js_sort [of "[UNDERSCORE_file, js ''a'']"] underscore_names(1,2)
    by (auto simp: warnTablesWithoutRLS_def filter_empty_conv)
  have c: "count_list (console (final (main (demo_underscore c) fresh_db)))
        (NoRLSFound UNDERSCORE_file) = 0" for c
    using warnings_of_complete_run(2) [OF demo_underscore_exit demo_underscore_env(2,3),
        of c UNDERSCORE_file] w
    by simp
  show ?thesis
    using w c demo_underscore_exit underscore_names by (simp add: demo_underscore_env)
qed

section \<open>C1: running twice\<close>

text \<open>
  C1. Let a run with \<open>--commit\<close> end with status 0, and let the tool run again with the
  same files on the database that the first run left. Then every entry of the manifest is
  decided \<open>Skip\<close> against the ledger, the second run sends no script body and no ledger
  write (only \<open>BEGIN\<close> and \<open>COMMIT\<close> around an empty loop), leaves the counter of
  updates at 0, ends with status 0 and leaves the database as it found it.
\<close>

theorem second_commit_run_is_a_no_op:
  assumes "doCommit env" "manifest_json env = Some us" "exit_code (main env d) = 0"
  shows "map (\<lambda>u. decide (ledger_rows (db (final (main env d)))) u (digest_of env u)) (updates us)
           = replicate (length (updates us)) Skip
    \<and> calls (final (main env (db (final (main env d)))))
           = [Connect, ManageDbUpdates, SelectDbUpdates, Begin, Commit]
    \<and> updateCounter (final (main env (db (final (main env d))))) = 0
    \<and> exit_code (main env (db (final (main env d)))) = 0
    \<and> db (final (main env (db (final (main env d))))) = db (final (main env d))"
proof -
  from main_exit_0D [OF assms(3)] assms(2) obtain listing st4 where
    e: "checkEnvVars env = None" "connect_ok env" "readdirSync env = Some listing"
    and ok: "manage_ok env" "select_ok env" "begin_ok env"
    and loop: "apply_updates env (ledger_rows d) (updates us) (state_at_begin d) = Inr st4"
    by auto
  let ?d1 = "db (final (main env d))"
  have d1: "?d1 = db st4"
    using main_Inr [OF e(1) assms(2) e(3) e(2) ok loop] assms(1)
    by (simp add: exit_with_def say_def printWarnings_def pg_commit_def issue_def)
  have tab: "db_updates ?d1 \<noteq> None"
    unfolding d1 by (rule apply_updates_table [OF loop]) (simp add: state_at_begin_simps)
  have skip: "decide (ledger_rows ?d1) u (digest_of env u) = Skip" if "u \<in> set (updates us)" for u
    using recorded_after_commit [OF loop, of u] that by (simp add: d1 decide_recorded)
  have files: "readFileSync env u \<noteq> None" if "u \<in> set (updates us)" for u
    using apply_updates_files [OF loop that] .
  have loop2: "apply_updates env (ledger_rows ?d1) (updates us) (state_at_begin ?d1)
      = Inr ((state_at_begin ?d1)\<lparr>console := console (state_at_begin ?d1)
               @ map Skipping (updates us)\<rparr>)"
    by (rule apply_updates_all_skip) (simp_all add: files skip)
  note m2 = main_Inr [OF e(1) assms(2) e(3) e(2) ok loop2]
  have "map (\<lambda>u. decide (ledger_rows ?d1) u (digest_of env u)) (updates us)
      = replicate (length (updates us)) Skip"
    using skip by (simp add: map_replicate_const [symmetric] cong: map_cong)
  moreover have "calls (final (main env ?d1))
      = [Connect, ManageDbUpdates, SelectDbUpdates, Begin, Commit]"
    using m2 assms(1)
    by (simp add: exit_with_def say_def printWarnings_def pg_commit_def issue_def
        state_at_begin_simps)
  moreover have "updateCounter (final (main env ?d1)) = 0"
    using m2 assms(1)
    by (simp add: exit_with_def say_def printWarnings_def pg_commit_def issue_def
        state_at_begin_simps)
  moreover have "exit_code (main env ?d1) = 0"
    using m2 by (simp add: exit_with_def)
  moreover have "db (final (main env ?d1)) = ?d1"
    using m2 assms(1) managed_table_id [OF tab]
    by (simp add: exit_with_def say_def printWarnings_def pg_commit_def issue_def
        state_at_begin_simps)
  ultimately show ?thesis by simp
qed

theorem second_commit_run_is_a_no_op_witness:
  "doCommit (demo_twice True)
   \<and> manifest_json (demo_twice True) = Some \<lparr>updates = [js ''a'', js ''a''], ignore = []\<rparr>
   \<and> exit_code (main (demo_twice True) fresh_db) = 0
   \<and> calls (final (main (demo_twice True) fresh_db))
       = [Connect, ManageDbUpdates, SelectDbUpdates, Begin,
          Script (js ''A''), InsertRow (js ''a'') (js ''A''),
          Script (js ''A''), InsertRow (js ''a'') (js ''A''), Commit]
   \<and> calls (final (main (demo_twice True) (db (final (main (demo_twice True) fresh_db)))))
       = [Connect, ManageDbUpdates, SelectDbUpdates, Begin, Commit]"
proof -
  have h1: "doCommit (demo_twice True)" by (simp add: demo_twice_env)
  have h3: "exit_code (main (demo_twice True) fresh_db) = 0"
    by (simp add: demo_twice_main exit_with_def)
  have c: "calls (final (main (demo_twice True) fresh_db))
       = [Connect, ManageDbUpdates, SelectDbUpdates, Begin,
          Script (js ''A''), InsertRow (js ''a'') (js ''A''),
          Script (js ''A''), InsertRow (js ''a'') (js ''A''), Commit]"
    by (simp add: demo_twice_main exit_with_def say_def printWarnings_def pg_commit_def issue_def)
  show ?thesis
    using second_commit_run_is_a_no_op [OF h1 demo_twice_env(2) h3] h1 h3 c
    by (simp add: demo_twice_env)
qed

section \<open>C4: one record for each name\<close>

text \<open>
  C4, as the source has it. Let the ledger hold at most one record for each name before a
  run, and let no name that has no record yet occur twice in \<open>updates\<close>. Then the ledger
  holds at most one record for each name after the run, however the run ends. Moreover,
  when a script that has a record occurs once in \<open>updates\<close> and its text no longer has the
  recorded digest, a run with \<open>--commit\<close> that ends with status 0 sends the new body
  followed by the \<open>UPDATE\<close> of that record exactly once, sends no \<open>INSERT\<close> for that
  name, and leaves the record with the new digest.
\<close>

theorem one_record_for_each_name:
  assumes "manifest_json env = Some us"
    and "distinct (map name (ledger_rows d))"
    and "\<forall>n\<in>set (updates us). n \<in> name ` set (ledger_rows d) \<or> count_list (updates us) n = 1"
  shows "distinct (map name (ledger_rows (db (final (main env d)))))
    \<and> (doCommit env \<and> exit_code (main env d) = 0 \<and> count_list (updates us) u = 1
        \<and> readFileSync env u = Some script \<and> recorded (ledger_rows d) u = Some old
        \<and> old \<noteq> sha256_hex env script
       \<longrightarrow> (\<exists>xs ys. calls (final (main env d))
                 = xs @ [Script (injectDefaults script), UpdateRow (sha256_hex env script) u] @ ys
               \<and> UpdateRow (sha256_hex env script) u \<notin> set xs
               \<and> UpdateRow (sha256_hex env script) u \<notin> set ys)
          \<and> (\<forall>h. InsertRow u h \<notin> set (calls (final (main env d))))
          \<and> recorded (ledger_rows (db (final (main env d)))) u = Some (sha256_hex env script))"
proof (intro conjI impI)
  show "distinct (map name (ledger_rows (db (final (main env d)))))"
  proof (cases "doCommit env \<and> exit_code (main env d) = 0")
    case False
    from run_that_does_not_commit [OF this] assms(2) show ?thesis by simp
  next
    case True
    from calls_of_committed_run(2) [OF _ assms(1)] True obtain st4 where
      loop: "apply_updates env (ledger_rows d) (updates us) (state_at_begin d) = Inr st4"
      and d4: "db (final (main env d)) = db st4" by blast
    have "distinct (map name (ledger_rows (db st4)))"
    proof (rule apply_updates_names [OF loop, where S = "{}"])
      show "distinct (map name (ledger_rows (db (state_at_begin d))))"
        using assms(2) by (simp add: state_at_begin_simps)
      show "name ` set (ledger_rows (db (state_at_begin d))) \<subseteq> name ` set (ledger_rows d) \<union> {}"
        by (simp add: state_at_begin_simps)
      show "n \<in> name ` set (ledger_rows d) \<or> n \<notin> {} \<and> count_list (updates us) n = 1"
        if "n \<in> set (updates us)" for n
        using assms(3) that by auto
    qed
    then show ?thesis by (simp add: d4)
  qed
next
  assume a: "doCommit env \<and> exit_code (main env d) = 0 \<and> count_list (updates us) u = 1
        \<and> readFileSync env u = Some script \<and> recorded (ledger_rows d) u = Some old
        \<and> old \<noteq> sha256_hex env script"
  let ?h = "sha256_hex env script"
  let ?ec = "entry_calls env (ledger_rows d)"
  have c: "calls (final (main env d)) =
           [Connect, ManageDbUpdates, SelectDbUpdates, Begin]
           @ concat (map ?ec (updates us)) @ [Commit]"
    using calls_of_committed_run(1) [OF _ assms(1)] a by blast
  have ecu: "?ec u = [Script (injectDefaults script), UpdateRow ?h u]"
    using a by (simp add: entry_calls_def decide_recorded)
  from count_one_split [of "updates us" u] a obtain as bs where
    sp: "updates us = as @ u # bs" "u \<notin> set as" "u \<notin> set bs" by blast
  let ?xs = "[Connect, ManageDbUpdates, SelectDbUpdates, Begin] @ concat (map ?ec as)"
  let ?ys = "concat (map ?ec bs) @ [Commit]"
  have 1: "calls (final (main env d))
      = ?xs @ [Script (injectDefaults script), UpdateRow ?h u] @ ?ys"
    by (simp add: c sp(1) ecu)
  have 2: "UpdateRow ?h u \<notin> set ?xs"
    using sp(2) by (auto dest: entry_calls_writes(1))
  have 3: "UpdateRow ?h u \<notin> set ?ys"
    using sp(3) by (auto dest: entry_calls_writes(1))
  show "\<exists>xs ys. calls (final (main env d))
                 = xs @ [Script (injectDefaults script), UpdateRow ?h u] @ ys
               \<and> UpdateRow ?h u \<notin> set xs \<and> UpdateRow ?h u \<notin> set ys"
    using 1 2 3 by blast
  have rec: "u \<in> name ` set (ledger_rows d)"
    using a recorded_None_iff [of "ledger_rows d" u] by auto
  show "\<forall>h. InsertRow u h \<notin> set (calls (final (main env d)))"
    using rec by (auto simp: c dest: entry_calls_writes(2))
  from calls_of_committed_run(2) [OF _ assms(1)] a obtain st4 where
    loop: "apply_updates env (ledger_rows d) (updates us) (state_at_begin d) = Inr st4"
    and d4: "db (final (main env d)) = db st4" by blast
  have "u \<in> set (updates us)" by (simp add: sp(1))
  then show "recorded (ledger_rows (db (final (main env d)))) u = Some ?h"
    using recorded_after_commit [OF loop, of u] a by (simp add: d4 digest_of_def)
qed

theorem one_record_for_each_name_witness:
  "manifest_json (demo_orphan True) = Some \<lparr>updates = [js ''a''], ignore = []\<rparr>
   \<and> distinct (map name (ledger_rows drifted_db))
   \<and> js ''a'' \<in> name ` set (ledger_rows drifted_db)
   \<and> doCommit (demo_orphan True) \<and> exit_code (main (demo_orphan True) drifted_db) = 0
   \<and> count_list [js ''a''] (js ''a'') = 1
   \<and> readFileSync (demo_orphan True) (js ''a'') = Some (js ''A'')
   \<and> recorded (ledger_rows drifted_db) (js ''a'') = Some (js ''OLD'')
   \<and> js ''OLD'' \<noteq> sha256_hex (demo_orphan True) (js ''A'')
   \<and> calls (final (main (demo_orphan True) drifted_db))
       = [Connect, ManageDbUpdates, SelectDbUpdates, Begin,
          Script (js ''A''), UpdateRow (js ''A'') (js ''a''), Commit]
   \<and> distinct (map name (ledger_rows (db (final (main (demo_orphan True) drifted_db)))))
   \<and> recorded (ledger_rows (db (final (main (demo_orphan True) drifted_db)))) (js ''a'')
       = Some (js ''A'')"
proof -
  let ?us = "\<lparr>updates = [js ''a''], ignore = []\<rparr>"
  have h2: "distinct (map name (ledger_rows drifted_db))"
    by (simp add: ledger_rows_def drifted_db_def)
  have i: "js ''a'' \<in> name ` set (ledger_rows drifted_db)"
    by (simp add: ledger_rows_def drifted_db_def)
  have h3: "\<forall>n\<in>set (updates ?us).
      n \<in> name ` set (ledger_rows drifted_db) \<or> count_list (updates ?us) n = 1"
    using i by simp
  have e: "exit_code (main (demo_orphan True) drifted_db) = 0"
    by (simp add: demo_drift_main exit_with_def)
  have f: "readFileSync (demo_orphan True) (js ''a'') = Some (js ''A'')"
    "sha256_hex (demo_orphan True) (js ''A'') = js ''A''"
    by (simp_all add: demo_orphan_def demo_env_def demo_digest_def)
  have r: "recorded (ledger_rows drifted_db) (js ''a'') = Some (js ''OLD'')"
    by (simp add: recorded_def ledger_rows_def drifted_db_def)
  have o: "js ''OLD'' \<noteq> js ''A''" by (simp add: js_def)
  have c: "calls (final (main (demo_orphan True) drifted_db))
       = [Connect, ManageDbUpdates, SelectDbUpdates, Begin,
          Script (js ''A''), UpdateRow (js ''A'') (js ''a''), Commit]"
    by (simp add: demo_drift_main exit_with_def say_def printWarnings_def pg_commit_def issue_def)
  from one_record_for_each_name [OF demo_orphan_env(2) h2 h3,
      where u = "js ''a''" and script = "js ''A''" and old = "js ''OLD''" and c1 = True]
  have "distinct (map name (ledger_rows (db (final (main (demo_orphan True) drifted_db)))))
    \<and> recorded (ledger_rows (db (final (main (demo_orphan True) drifted_db)))) (js ''a'')
       = Some (js ''A'')"
    using e f r o by (simp add: demo_orphan_env)
  then show ?thesis
    using h2 i e f r o c by (simp add: demo_orphan_env)
qed

text \<open>
  The claim as written fails for a manifest that names a script without a record twice:
  both occurrences are decided \<open>Insert\<close> against the snapshot, the table has no uniqueness
  constraint on the name, and the ledger ends with two records of that name.
\<close>

theorem second_record_counterexample:
  "distinct (map name (ledger_rows fresh_db))
   \<and> map name (ledger_rows (db (final (main (demo_twice True) fresh_db))))
       = [js ''a'', js ''a'']"
  by (simp add: demo_twice_main exit_with_def say_def printWarnings_def pg_commit_def issue_def
      ledger_rows_def)

section \<open>C8: the two substitutions\<close>

text \<open>
  C8, as the source has it. \<open>injectDefaults\<close> is a function of the text: it applies the
  column substitution and then the trigger substitution to the result. The two
  substitutions give the same result in either order on a text with no match of the
  trigger pattern, and on a text whose first match of the trigger pattern has no percent
  sign in its two groups and does not overlap the first columns placeholder, if there is
  one. A text that holds neither placeholder is returned as it is.
\<close>

theorem injectDefaults_order:
  "injectDefaults q = inject_trigger (inject_columns q)
   \<and> (regex_search rxDefaultTrigger q = None \<longrightarrow>
        inject_trigger (inject_columns q) = inject_columns (inject_trigger q))
   \<and> (regex_search rxDefaultTrigger q = Some (a', g1, g2, b') \<and> 37 \<notin> set g1 \<and> 37 \<notin> set g2
        \<and> (case regex_search (strip_prefix DEFAULT_COLUMNS_PLACEHOLDER) q of
              None \<Rightarrow> True
            | Some (a, b) \<Rightarrow>
                length a + length DEFAULT_COLUMNS_PLACEHOLDER \<le> length a'
                \<or> length b + length DEFAULT_COLUMNS_PLACEHOLDER \<le> length b') \<longrightarrow>
        inject_trigger (inject_columns q) = inject_columns (inject_trigger q))
   \<and> (regex_search (strip_prefix DEFAULT_COLUMNS_PLACEHOLDER) q = None
        \<and> regex_search rxDefaultTrigger q = None \<longrightarrow> injectDefaults q = q)"
proof (intro conjI impI)
  show "injectDefaults q = inject_trigger (inject_columns q)"
    by (simp add: injectDefaults_def)
next
  assume n: "regex_search rxDefaultTrigger q = None"
  have "inject_trigger (inject_columns q) = inject_columns q"
    using inject_columns_keeps_no_match [OF n] by (simp add: inject_trigger_def)
  moreover have "inject_trigger q = q" using n by (simp add: inject_trigger_def)
  ultimately show "inject_trigger (inject_columns q) = inject_columns (inject_trigger q)"
    by simp
next
  assume h: "regex_search rxDefaultTrigger q = Some (a', g1, g2, b') \<and> 37 \<notin> set g1 \<and> 37 \<notin> set g2
        \<and> (case regex_search (strip_prefix DEFAULT_COLUMNS_PLACEHOLDER) q of
              None \<Rightarrow> True
            | Some (a, b) \<Rightarrow>
                length a + length DEFAULT_COLUMNS_PLACEHOLDER \<le> length a'
                \<or> length b + length DEFAULT_COLUMNS_PLACEHOLDER \<le> length b')"
  then have T: "regex_search rxDefaultTrigger q = Some (a', g1, g2, b')"
    and pc: "37 \<notin> set g1" "37 \<notin> set g2" by simp_all
  show "inject_trigger (inject_columns q) = inject_columns (inject_trigger q)"
  proof (cases "regex_search (strip_prefix DEFAULT_COLUMNS_PLACEHOLDER) q")
    case None
    from trigger_alone [OF None T pc] show ?thesis .
  next
    case (Some x)
    obtain a b where x: "x = (a, b)" by (cases x)
    from h Some x have "length a + length DEFAULT_COLUMNS_PLACEHOLDER \<le> length a'
                \<or> length b + length DEFAULT_COLUMNS_PLACEHOLDER \<le> length b'" by simp
    then show ?thesis
    proof
      assume "length a + length DEFAULT_COLUMNS_PLACEHOLDER \<le> length a'"
      from columns_before_trigger [OF Some [unfolded x] T this] show ?thesis .
    next
      assume "length b + length DEFAULT_COLUMNS_PLACEHOLDER \<le> length b'"
      from trigger_before_columns [OF Some [unfolded x] T this pc] show ?thesis .
    qed
  qed
next
  assume "regex_search (strip_prefix DEFAULT_COLUMNS_PLACEHOLDER) q = None
        \<and> regex_search rxDefaultTrigger q = None"
  then show "injectDefaults q = q"
    by (simp add: injectDefaults_def inject_columns_def replace_string_def inject_trigger_def)
qed

theorem injectDefaults_order_witness:
  "regex_search rxDefaultTrigger both_placeholders
     = Some ([], js ''a'', js ''b'', js '' %DEFAULT_COLUMNS%'')
   \<and> regex_search (strip_prefix DEFAULT_COLUMNS_PLACEHOLDER) both_placeholders
     = Some (js ''%DEFAULT_TRIGGER(a.b)% '', [])
   \<and> inject_trigger (inject_columns both_placeholders)
       = inject_columns (inject_trigger both_placeholders)
   \<and> regex_search rxDefaultTrigger columns_then_trigger
     = Some (js ''%DEFAULT_COLUMNS% '', js ''a'', js ''b'', [])
   \<and> regex_search (strip_prefix DEFAULT_COLUMNS_PLACEHOLDER) columns_then_trigger
     = Some ([], js '' %DEFAULT_TRIGGER(a.b)%'')
   \<and> inject_trigger (inject_columns columns_then_trigger)
       = inject_columns (inject_trigger columns_then_trigger)
   \<and> regex_search rxDefaultTrigger DEFAULT_COLUMNS_PLACEHOLDER = None
   \<and> inject_trigger (inject_columns DEFAULT_COLUMNS_PLACEHOLDER) = DEFAULT_COLUMNS_TEXT
   \<and> inject_columns (inject_trigger DEFAULT_COLUMNS_PLACEHOLDER) = DEFAULT_COLUMNS_TEXT
   \<and> regex_search (strip_prefix DEFAULT_COLUMNS_PLACEHOLDER) (js ''SELECT 1'') = None
   \<and> regex_search rxDefaultTrigger (js ''SELECT 1'') = None
   \<and> injectDefaults (js ''SELECT 1'') = js ''SELECT 1''"
proof -
  have l: "length DEFAULT_COLUMNS_PLACEHOLDER = 17" by (rule placeholder_units(4))
  have pc: "37 \<notin> set (js ''a'')" "37 \<notin> set (js ''b'')" by (simp_all add: js_def)
  from injectDefaults_order [of both_placeholders "[]" "js ''a''" "js ''b''"
      "js '' %DEFAULT_COLUMNS%''"] pc
  have c1: "inject_trigger (inject_columns both_placeholders)
       = inject_columns (inject_trigger both_placeholders)"
    by (simp add: example_searches l js_def)
  from injectDefaults_order [of columns_then_trigger "js ''%DEFAULT_COLUMNS% ''" "js ''a''"
      "js ''b''" "[]"] pc
  have c2: "inject_trigger (inject_columns columns_then_trigger)
       = inject_columns (inject_trigger columns_then_trigger)"
    by (simp add: example_searches l js_def)
  from injectDefaults_order [of DEFAULT_COLUMNS_PLACEHOLDER] example_searches(5)
  have c3: "inject_trigger (inject_columns DEFAULT_COLUMNS_PLACEHOLDER)
      = inject_columns (inject_trigger DEFAULT_COLUMNS_PLACEHOLDER)"
    by blast
  from injectDefaults_order [of "js ''SELECT 1''"] example_searches(6,7)
  have c4: "injectDefaults (js ''SELECT 1'') = js ''SELECT 1''"
    by blast
  have e: "inject_trigger (inject_columns DEFAULT_COLUMNS_PLACEHOLDER) = DEFAULT_COLUMNS_TEXT"
    using injectDefaults_placeholder by (simp add: injectDefaults_def)
  show ?thesis
    using c1 c2 c3 [symmetric] c4 e example_searches by (simp only: simp_thms)
qed

text \<open>
  The claim as written (the same result in either order for every text) fails where the
  two placeholders share a percent sign: with the columns first, the text begins with the
  block of columns and the trigger placeholder is left without its first percent sign;
  with the trigger first, the text begins with what is left of the columns placeholder.
\<close>

theorem substitution_order_counterexample:
  "inject_trigger (inject_columns adjacent_placeholders)
     \<noteq> inject_columns (inject_trigger adjacent_placeholders)"
proof
  assume "inject_trigger (inject_columns adjacent_placeholders)
     = inject_columns (inject_trigger adjacent_placeholders)"
  then have "hd (inject_trigger (inject_columns adjacent_placeholders))
     = hd (inject_columns (inject_trigger adjacent_placeholders))" by simp
  then show False by (simp add: adjacent_columns_first adjacent_trigger_first)
qed

end
